theory Spec2Isabelle
  imports Main
begin

section \<open>Data model of the snake game (src/app/page.tsx)\<close>

text \<open>
  The game is one React component. Its state cells (\<open>useState\<close>) and mutable refs
  (\<open>useRef\<close>) are the fields of one record; every event handler becomes a function from
  the record to the record it leaves behind, and the effects that React runs after the
  re-render are a separate function, applied after each handler. An event is handled as a
  whole: the handler and the state updaters it queues run once, in the order of the source,
  and the effects of the re-render have run before the next event is handled. JavaScript
  numbers are integers here (coordinates, scores and levels never leave the exactly
  representable range), so they are \<open>int\<close>.

  The fields of \<open>Coordinate\<close> are \<open>x\<close> and \<open>y\<close> in the source; they are named
  \<open>cx\<close> and \<open>cy\<close> here.
\<close>

record Coordinate =
  cx :: int
  cy :: int

datatype Direction = UP | DOWN | LEFT | RIGHT

datatype GameState = idle | running | paused | over

definition BOARD_SIZE :: int where
  "BOARD_SIZE = 20"

definition TICK_BASE :: int where
  "TICK_BASE = 160"

definition SPEED_STEP :: int where
  "SPEED_STEP = 6"

definition INITIAL_SNAKE :: "Coordinate list" where
  "INITIAL_SNAKE = [\<lparr>cx = 9, cy = 10\<rparr>, \<lparr>cx = 8, cy = 10\<rparr>, \<lparr>cx = 7, cy = 10\<rparr>]"

text \<open>
  The interval created by \<open>startLoop\<close>: its callback closes over the \<open>food\<close> of the
  render that created \<open>startLoop\<close>, and it fires every \<open>tickRate\<close> milliseconds.
\<close>

record Interval =
  closureFood :: Coordinate
  delay :: int

text \<open>
  \<open>localStorage\<close> holds the number last written under the key \<open>snake-high-score\<close>;
  \<open>randomCalls\<close> counts the calls of \<open>Math.random\<close> made so far.
\<close>

record Game =
  snake :: "Coordinate list"
  food :: Coordinate
  direction :: Direction
  queuedDirection :: Direction
  gameState :: GameState
  score :: int
  highScore :: int
  speedLevel :: int
  loopRef :: "Interval option"
  directionRef :: Direction
  queuedRef :: Direction
  gameStateRef :: GameState
  scoreRef :: int
  localStorage :: "int option"
  randomCalls :: nat

text \<open>
  A handler either returns, throws (reading \<open>head.x\<close> of an empty snake), or never returns
  (the loop of \<open>randomFoodPosition\<close>).
\<close>

datatype failure = TypeError | Diverges

section \<open>Food placement\<close>

text \<open>
  The keys of the set \<open>taken\<close> are the template strings \<open>`${seg.x}-${seg.y}`\<close>: the decimal
  numeral of \<open>x\<close>, a dash, the decimal numeral of \<open>y\<close>.
\<close>

definition digitChar :: "nat \<Rightarrow> char" where
  "digitChar d = ''0123456789'' ! d"

fun digits :: "nat \<Rightarrow> string" where
  "digits n = (if n < 10 then [digitChar n] else digits (n div 10) @ [digitChar (n mod 10)])"

declare digits.simps [simp del]

definition numberToString :: "int \<Rightarrow> string" where
  "numberToString i = (if i < 0 then CHR ''-'' # digits (nat (- i)) else digits (nat i))"

definition cellKey :: "Coordinate \<Rightarrow> string" where
  "cellKey seg = numberToString (cx seg) @ ''-'' @ numberToString (cy seg)"

text \<open>
  \<open>rnd k\<close> is the value of the \<open>k\<close>-th evaluation of
  \<open>Math.floor(Math.random() * BOARD_SIZE)\<close>. The do-while loop draws \<open>x\<close>, then \<open>y\<close>, and
  repeats while the key is taken; it returns the cell and the number of draws used so far.
  A run that never leaves the loop is the value \<open>None\<close>.
\<close>

partial_function (option) randomFoodPosition_loop ::
  "(nat \<Rightarrow> int) \<Rightarrow> string set \<Rightarrow> nat \<Rightarrow> (Coordinate \<times> nat) option" where
  "randomFoodPosition_loop rnd taken n =
     (if cellKey \<lparr>cx = rnd n, cy = rnd (Suc n)\<rparr> \<in> taken
      then randomFoodPosition_loop rnd taken (n + 2)
      else Some (\<lparr>cx = rnd n, cy = rnd (Suc n)\<rparr>, n + 2))"

definition randomFoodPosition ::
  "(nat \<Rightarrow> int) \<Rightarrow> Coordinate list \<Rightarrow> nat \<Rightarrow> (Coordinate \<times> nat) option" where
  "randomFoodPosition rnd forbidden n =
     randomFoodPosition_loop rnd (set (map cellKey forbidden)) n"

text \<open>The range of \<open>Math.floor(Math.random() * BOARD_SIZE)\<close>.\<close>

definition inRange :: "(nat \<Rightarrow> int) \<Rightarrow> bool" where
  "inRange rnd = (\<forall>k. 0 \<le> rnd k \<and> rnd k < BOARD_SIZE)"

text \<open>Every cell of the board, row by row.\<close>

definition allCells :: "Coordinate list" where
  "allCells = concat (map (\<lambda>i. map (\<lambda>j. \<lparr>cx = i, cy = j\<rparr>) [0..BOARD_SIZE - 1]) [0..BOARD_SIZE - 1])"

section \<open>Movement, direction and speed\<close>

fun getNextHead :: "Coordinate \<Rightarrow> Direction \<Rightarrow> Coordinate" where
  "getNextHead head UP = \<lparr>cx = cx head, cy = cy head - 1\<rparr>"
| "getNextHead head DOWN = \<lparr>cx = cx head, cy = cy head + 1\<rparr>"
| "getNextHead head LEFT = \<lparr>cx = cx head - 1, cy = cy head\<rparr>"
| "getNextHead head RIGHT = \<lparr>cx = cx head + 1, cy = cy head\<rparr>"

definition isOppositeDirection :: "Direction \<Rightarrow> Direction \<Rightarrow> bool" where
  "isOppositeDirection current next =
     ((current = UP \<and> next = DOWN) \<or>
      (current = DOWN \<and> next = UP) \<or>
      (current = LEFT \<and> next = RIGHT) \<or>
      (current = RIGHT \<and> next = LEFT))"

definition tickRate :: "int \<Rightarrow> int" where
  "tickRate level = max 60 (TICK_BASE - level * SPEED_STEP)"

section \<open>High score\<close>

definition updateHighScore :: "int \<Rightarrow> Game \<Rightarrow> Game" where
  "updateHighScore sc s =
     (if sc > highScore s then s\<lparr>localStorage := Some sc, highScore := sc\<rparr> else s)"

section \<open>The component's callbacks\<close>

definition resetGame :: "(nat \<Rightarrow> int) \<Rightarrow> Game \<Rightarrow> failure + Game" where
  "resetGame rnd s =
     (case randomFoodPosition rnd INITIAL_SNAKE (randomCalls s) of
        None \<Rightarrow> Inl Diverges
      | Some (newFood, n) \<Rightarrow>
          Inr (s\<lparr>snake := INITIAL_SNAKE, food := newFood,
                 direction := RIGHT, queuedDirection := RIGHT,
                 directionRef := RIGHT, queuedRef := RIGHT,
                 scoreRef := 0, score := 0, speedLevel := 0,
                 gameState := running, randomCalls := n\<rparr>))"

definition stopLoop :: "Game \<Rightarrow> Game" where
  "stopLoop s = s\<lparr>loopRef := None\<rparr>"

definition startLoop :: "Game \<Rightarrow> Game" where
  "startLoop s =
     (stopLoop s)\<lparr>loopRef := Some \<lparr>closureFood = food s, delay = tickRate (speedLevel s)\<rparr>\<rparr>"

text \<open>
  The callback of the interval. \<open>t\<close> is the interval that fires (its closure holds the
  food the eat check compares with).
\<close>

definition intervalCallback :: "(nat \<Rightarrow> int) \<Rightarrow> Interval \<Rightarrow> Game \<Rightarrow> failure + Game" where
  "intervalCallback rnd t s0 =
     (let s = s0\<lparr>directionRef := queuedRef s0\<rparr>;
          prevSnake = snake s;
          currentDirection = directionRef s
      in case prevSnake of
           [] \<Rightarrow> Inl TypeError
         | head # _ \<Rightarrow>
             let nextHead = getNextHead head currentDirection in
             if cx nextHead < 0 \<or>
                cy nextHead < 0 \<or>
                cx nextHead \<ge> BOARD_SIZE \<or>
                cy nextHead \<ge> BOARD_SIZE \<or>
                list_ex (\<lambda>segment. cx segment = cx nextHead \<and> cy segment = cy nextHead) prevSnake
             then Inr (updateHighScore (scoreRef s) ((stopLoop s)\<lparr>gameState := over\<rparr>))
             else
               let hasEaten = (cx nextHead = cx (closureFood t) \<and> cy nextHead = cy (closureFood t));
                   newSnake = (if hasEaten then nextHead # prevSnake
                               else butlast (nextHead # prevSnake))
               in if hasEaten
                  then (case randomFoodPosition rnd newSnake (randomCalls s) of
                          None \<Rightarrow> Inl Diverges
                        | Some (newFood, n) \<Rightarrow>
                            Inr (s\<lparr>snake := newSnake, food := newFood,
                                   score := score s + 10, scoreRef := score s + 10,
                                   speedLevel := min (speedLevel s + 1) 12,
                                   randomCalls := n\<rparr>))
                  else Inr (s\<lparr>snake := newSnake\<rparr>))"

definition togglePause :: "(nat \<Rightarrow> int) \<Rightarrow> Game \<Rightarrow> failure + Game" where
  "togglePause rnd s =
     (case gameState s of
        running \<Rightarrow> Inr (s\<lparr>gameState := paused\<rparr>)
      | paused \<Rightarrow> Inr (s\<lparr>gameState := running\<rparr>)
      | idle \<Rightarrow> map_sum id (\<lambda>s'. s'\<lparr>gameState := running\<rparr>) (resetGame rnd s)
      | over \<Rightarrow> map_sum id (\<lambda>s'. s'\<lparr>gameState := running\<rparr>) (resetGame rnd s))"

definition changeDirection :: "Direction \<Rightarrow> Game \<Rightarrow> Game" where
  "changeDirection next s =
     (let currentQueued = queuedDirection s;
          currentDirection = directionRef s
      in if isOppositeDirection currentDirection next \<or> currentQueued = next then s
         else s\<lparr>direction := next, queuedDirection := next\<rparr>)"

definition keyMap :: "string \<Rightarrow> Direction option" where
  "keyMap key =
     (if key = ''ArrowUp'' \<or> key = ''KeyW'' then Some UP
      else if key = ''ArrowDown'' \<or> key = ''KeyS'' then Some DOWN
      else if key = ''ArrowLeft'' \<or> key = ''KeyA'' then Some LEFT
      else if key = ''ArrowRight'' \<or> key = ''KeyD'' then Some RIGHT
      else None)"

definition handleKeyDown :: "(nat \<Rightarrow> int) \<Rightarrow> string \<Rightarrow> Game \<Rightarrow> failure + Game" where
  "handleKeyDown rnd key s =
     (case keyMap key of
        None \<Rightarrow>
          if key = ''Space''
          then (case gameState s of
                  running \<Rightarrow> Inr (s\<lparr>gameState := paused\<rparr>)
                | paused \<Rightarrow> Inr (s\<lparr>gameState := running\<rparr>)
                | idle \<Rightarrow> map_sum id (\<lambda>s'. s'\<lparr>gameState := running\<rparr>) (resetGame rnd s)
                | over \<Rightarrow> map_sum id (\<lambda>s'. s'\<lparr>gameState := running\<rparr>) (resetGame rnd s))
          else Inr s
      | Some nextDirection \<Rightarrow>
          let currentQueued = queuedDirection s;
              currentDirection = directionRef s
          in if isOppositeDirection currentDirection nextDirection then Inr s
             else if currentQueued = nextDirection then Inr s
             else Inr (s\<lparr>direction := nextDirection, queuedDirection := nextDirection\<rparr>))"

section \<open>Effects and events\<close>

text \<open>
  After a handler has run, React re-renders and runs each effect whose dependencies differ
  from the previous render: \<open>prev\<close> is the state of the previous render, \<open>s\<close> the state
  the handler left. \<open>startLoop\<close> is a new function exactly when \<open>food.x\<close>, \<open>food.y\<close> or
  \<open>tickRate\<close> changed. The effects run in the order of their declaration.
\<close>

definition runEffects :: "Game \<Rightarrow> Game \<Rightarrow> Game" where
  "runEffects prev s =
     (let s1 = (if gameState s \<noteq> gameState prev \<or>
                   cx (food s) \<noteq> cx (food prev) \<or> cy (food s) \<noteq> cy (food prev) \<or>
                   tickRate (speedLevel s) \<noteq> tickRate (speedLevel prev)
                then (if gameState s = running then startLoop s else stopLoop s)
                       \<lparr>gameStateRef := gameState s\<rparr>
                else s);
          s2 = (if direction s \<noteq> direction prev then s1\<lparr>directionRef := direction s\<rparr> else s1);
          s3 = (if queuedDirection s \<noteq> queuedDirection prev
                then s2\<lparr>queuedRef := queuedDirection s\<rparr> else s2);
          s4 = (if score s \<noteq> score prev then s3\<lparr>scoreRef := score s\<rparr> else s3)
      in if score s \<noteq> score prev then updateHighScore (score s) s4 else s4)"

text \<open>
  The first render and its effects (every effect runs once). \<open>stored\<close> is the number parsed
  from \<open>localStorage\<close>, if the key is present.
\<close>

definition mount :: "(nat \<Rightarrow> int) \<Rightarrow> int option \<Rightarrow> failure + Game" where
  "mount rnd stored =
     (case randomFoodPosition rnd INITIAL_SNAKE 0 of
        None \<Rightarrow> Inl Diverges
      | Some (newFood, n) \<Rightarrow>
          Inr (updateHighScore 0
                 \<lparr>snake = INITIAL_SNAKE, food = newFood,
                  direction = RIGHT, queuedDirection = RIGHT,
                  gameState = idle, score = 0,
                  highScore = (case stored of None \<Rightarrow> 0 | Some v \<Rightarrow> v),
                  speedLevel = 0, loopRef = None,
                  directionRef = RIGHT, queuedRef = RIGHT,
                  gameStateRef = idle, scoreRef = 0,
                  localStorage = stored, randomCalls = n\<rparr>))"

text \<open>
  The events the component reacts to: the interval firing, a key going down (with its
  \<open>event.code\<close>), a click on the start/pause button, a click on a direction button.
\<close>

datatype Event = Timer | KeyDown string | ClickToggle | ClickDirection Direction

text \<open>The interval can fire only while there is one.\<close>

fun canFire :: "Event \<Rightarrow> Game \<Rightarrow> bool" where
  "canFire Timer s = (loopRef s \<noteq> None)"
| "canFire (KeyDown key) s = True"
| "canFire ClickToggle s = True"
| "canFire (ClickDirection d) s = True"

fun handler :: "(nat \<Rightarrow> int) \<Rightarrow> Event \<Rightarrow> Game \<Rightarrow> failure + Game" where
  "handler rnd Timer s =
     (case loopRef s of None \<Rightarrow> Inr s | Some t \<Rightarrow> intervalCallback rnd t s)"
| "handler rnd (KeyDown key) s = handleKeyDown rnd key s"
| "handler rnd ClickToggle s = togglePause rnd s"
| "handler rnd (ClickDirection d) s = Inr (changeDirection d s)"

definition step :: "(nat \<Rightarrow> int) \<Rightarrow> Event \<Rightarrow> Game \<Rightarrow> failure + Game" where
  "step rnd e s = map_sum id (runEffects s) (handler rnd e s)"

inductive reachable :: "(nat \<Rightarrow> int) \<Rightarrow> Game \<Rightarrow> bool" for rnd :: "nat \<Rightarrow> int" where
  mounted: "mount rnd stored = Inr s \<Longrightarrow> reachable rnd s"
| stepped: "reachable rnd s \<Longrightarrow> canFire e s \<Longrightarrow> step rnd e s = Inr s' \<Longrightarrow> reachable rnd s'"

text \<open>A sequence of events, one after the other; an event that cannot fire is skipped.\<close>

fun play :: "(nat \<Rightarrow> int) \<Rightarrow> Event list \<Rightarrow> Game \<Rightarrow> failure + Game" where
  "play rnd [] s = Inr s"
| "play rnd (e # es) s =
     (if canFire e s
      then (case step rnd e s of Inl f \<Rightarrow> Inl f | Inr s' \<Rightarrow> play rnd es s')
      else play rnd es s)"

section \<open>Notions used in the properties\<close>

text \<open>The cell that the loop of \<open>randomFoodPosition\<close> draws with the calls \<open>k\<close> and \<open>k + 1\<close>.\<close>

definition drawn :: "(nat \<Rightarrow> int) \<Rightarrow> nat \<Rightarrow> Coordinate" where
  "drawn rnd k = \<lparr>cx = rnd k, cy = rnd (Suc k)\<rparr>"

text \<open>The collision test of the interval callback, on the next head and the snake before the move.\<close>

definition collides :: "Coordinate \<Rightarrow> Coordinate list \<Rightarrow> bool" where
  "collides c prevSnake =
     (cx c < 0 \<or> cy c < 0 \<or> cx c \<ge> BOARD_SIZE \<or> cy c \<ge> BOARD_SIZE \<or> c \<in> set prevSnake)"

text \<open>
  What holds of every state the game can reach: the snake is not empty and has no cell twice, the
  food is not on it, the speed level is between 0 and 12, and the interval that is running
  (if any) compares with the current food and fires at the tick rate of the current speed level.
\<close>

definition wellFormed :: "Game \<Rightarrow> bool" where
  "wellFormed s =
     (snake s \<noteq> [] \<and> distinct (snake s) \<and> food s \<notin> set (snake s) \<and>
      0 \<le> speedLevel s \<and> speedLevel s \<le> 12 \<and>
      (case loopRef s of
         None \<Rightarrow> True
       | Some t \<Rightarrow> closureFood t = food s \<and> delay t = tickRate (speedLevel s)))"

definition bodyOk :: "Game \<Rightarrow> bool" where
  "bodyOk s =
     (snake s \<noteq> [] \<and> distinct (snake s) \<and> food s \<notin> set (snake s) \<and>
      0 \<le> speedLevel s \<and> speedLevel s \<le> 12)"

text \<open>
  The mirrored cells agree: each ref holds the value of the state cell it shadows, the state
  \<open>direction\<close> is the queued direction, and there is an interval exactly while the game runs.
\<close>

definition refsInSync :: "Game \<Rightarrow> bool" where
  "refsInSync s =
     (direction s = queuedDirection s \<and> directionRef s = queuedDirection s \<and>
      queuedRef s = queuedDirection s \<and> scoreRef s = score s \<and>
      gameStateRef s = gameState s \<and> (loopRef s \<noteq> None) = (gameState s = running))"

section \<open>Concrete games\<close>

text \<open>A source of draws that replays a list and then yields 0.\<close>

definition rndOf :: "int list \<Rightarrow> nat \<Rightarrow> int" where
  "rndOf xs k = (if k < length xs then xs ! k else 0)"

text \<open>
  One game: the first render places the food at (3, 3); the start button resets and places
  it at (10, 10), one cell ahead of the head; the first tick eats it and the next food is
  placed at (0, 0).
\<close>

definition demoRnd :: "nat \<Rightarrow> int" where
  "demoRnd = rndOf [3, 3, 10, 10, 0, 0]"

definition demoMounted :: Game where
  "demoMounted =
     \<lparr>snake = INITIAL_SNAKE, food = \<lparr>cx = 3, cy = 3\<rparr>,
      direction = RIGHT, queuedDirection = RIGHT, gameState = idle, score = 0, highScore = 0,
      speedLevel = 0, loopRef = None, directionRef = RIGHT, queuedRef = RIGHT,
      gameStateRef = idle, scoreRef = 0, localStorage = None, randomCalls = 2\<rparr>"

definition demoStarted :: Game where
  "demoStarted =
     \<lparr>snake = INITIAL_SNAKE, food = \<lparr>cx = 10, cy = 10\<rparr>,
      direction = RIGHT, queuedDirection = RIGHT, gameState = running, score = 0, highScore = 0,
      speedLevel = 0, loopRef = Some \<lparr>closureFood = \<lparr>cx = 10, cy = 10\<rparr>, delay = 160\<rparr>,
      directionRef = RIGHT, queuedRef = RIGHT,
      gameStateRef = running, scoreRef = 0, localStorage = None, randomCalls = 4\<rparr>"

definition demoAte :: Game where
  "demoAte =
     \<lparr>snake = \<lparr>cx = 10, cy = 10\<rparr> # INITIAL_SNAKE, food = \<lparr>cx = 0, cy = 0\<rparr>,
      direction = RIGHT, queuedDirection = RIGHT, gameState = running, score = 10, highScore = 10,
      speedLevel = 1, loopRef = Some \<lparr>closureFood = \<lparr>cx = 0, cy = 0\<rparr>, delay = 154\<rparr>,
      directionRef = RIGHT, queuedRef = RIGHT,
      gameStateRef = running, scoreRef = 10, localStorage = Some 10, randomCalls = 6\<rparr>"

text \<open>
  The same game continued: two turns within one tick window, and a pause.
\<close>

definition demoTurnedUp :: Game where
  "demoTurnedUp =
     demoAte\<lparr>direction := UP, queuedDirection := UP, directionRef := UP, queuedRef := UP\<rparr>"

definition demoTurnedLeft :: Game where
  "demoTurnedLeft =
     demoAte\<lparr>direction := LEFT, queuedDirection := LEFT, directionRef := LEFT, queuedRef := LEFT\<rparr>"

definition demoPaused :: Game where
  "demoPaused = demoAte\<lparr>gameState := paused, loopRef := None, gameStateRef := paused\<rparr>"

text \<open>
  A game in which every food appears one cell ahead of the head: ten cells to the right,
  then, after a turn, two cells down.
\<close>

definition feastRnd :: "nat \<Rightarrow> int" where
  "feastRnd = rndOf [3, 3, 10, 10, 11, 10, 12, 10, 13, 10, 14, 10, 15, 10, 16, 10, 17, 10,
                     18, 10, 19, 10, 19, 11, 19, 12]"

definition feast :: "Event list" where
  "feast = [ClickToggle, Timer, Timer, Timer, Timer, Timer, Timer, Timer, Timer, Timer, Timer,
              KeyDown ''ArrowDown'', Timer, Timer]"

text \<open>A snake heading left in column 0, and a snake of length 4 whose next cell is its own tail.\<close>

definition atLeftWall :: Game where
  "atLeftWall =
     \<lparr>snake = [\<lparr>cx = 0, cy = 5\<rparr>, \<lparr>cx = 1, cy = 5\<rparr>, \<lparr>cx = 2, cy = 5\<rparr>],
      food = \<lparr>cx = 10, cy = 10\<rparr>,
      direction = LEFT, queuedDirection = LEFT, gameState = running, score = 20, highScore = 10,
      speedLevel = 2, loopRef = Some \<lparr>closureFood = \<lparr>cx = 10, cy = 10\<rparr>, delay = 148\<rparr>,
      directionRef = LEFT, queuedRef = LEFT,
      gameStateRef = running, scoreRef = 20, localStorage = Some 10, randomCalls = 8\<rparr>"

definition coiled :: Game where
  "coiled =
     \<lparr>snake = [\<lparr>cx = 5, cy = 5\<rparr>, \<lparr>cx = 5, cy = 6\<rparr>, \<lparr>cx = 6, cy = 6\<rparr>, \<lparr>cx = 6, cy = 5\<rparr>],
      food = \<lparr>cx = 10, cy = 10\<rparr>,
      direction = RIGHT, queuedDirection = RIGHT, gameState = running, score = 10, highScore = 10,
      speedLevel = 1, loopRef = Some \<lparr>closureFood = \<lparr>cx = 10, cy = 10\<rparr>, delay = 154\<rparr>,
      directionRef = RIGHT, queuedRef = RIGHT,
      gameStateRef = running, scoreRef = 10, localStorage = Some 10, randomCalls = 6\<rparr>"

section \<open>A game that fills the board\<close>

text \<open>The cells of the board.\<close>

definition onBoard :: "Coordinate \<Rightarrow> bool" where
  "onBoard c = (0 \<le> cx c \<and> cx c < BOARD_SIZE \<and> 0 \<le> cy c \<and> cy c < BOARD_SIZE)"

text \<open>
  A walk through all 400 cells: it starts on the three cells of the initial snake, tail
  first, runs right along row 10, winds through the columns below row 10 from right to
  left, comes back along row 10 to column 6, winds through the rows above row 10 in columns
  0 to 6, and then through the columns 7 to 19 above row 10. \<open>rankOf\<close> is the position
  of a cell on the walk, \<open>nextDir\<close> the direction in which the walk leaves it, and
  \<open>cellAt\<close> the cell at a position.
\<close>

definition rankOf :: "Coordinate \<Rightarrow> int" where
  "rankOf c =
     (if cy c = 10 then (if 7 \<le> cx c then cx c - 7 else 193 + cx c)
      else if 11 \<le> cy c then
        13 + 9 * (19 - cx c) + (if odd (cx c) then cy c - 11 else 19 - cy c)
      else if cx c \<le> 6 then
        200 + 7 * (9 - cy c) + (if odd (cy c) then 6 - cx c else cx c)
      else 270 + 10 * (cx c - 7) + (if odd (cx c) then cy c else 9 - cy c))"

definition nextDir :: "Coordinate \<Rightarrow> Direction" where
  "nextDir c =
     (if cy c = 10 then
        (if 7 \<le> cx c then (if cx c < 19 then RIGHT else DOWN)
         else (if cx c < 6 then RIGHT else UP))
      else if 11 \<le> cy c then
        (if odd (cx c) then (if cy c < 19 then DOWN else LEFT)
         else (if 11 < cy c then UP else if cx c = 0 then UP else LEFT))
      else if cx c \<le> 6 then
        (if odd (cy c) then (if 0 < cx c then LEFT else UP)
         else (if cx c < 6 then RIGHT else if 0 < cy c then UP else RIGHT))
      else
        (if odd (cx c) then (if cy c < 9 then DOWN else RIGHT)
         else (if 0 < cy c then UP else RIGHT)))"

primrec cellAt :: "nat \<Rightarrow> Coordinate" where
  "cellAt 0 = \<lparr>cx = 7, cy = 10\<rparr>"
| "cellAt (Suc i) = getNextHead (cellAt i) (nextDir (cellAt i))"

declare cellAt.simps(2) [simp del]

text \<open>
  A game along the walk: the first render places the food at (3, 3), and every later draw
  is the next cell of the walk, so the food is always one step ahead of the head.
  \<open>hamState j\<close> is the state after \<open>j\<close> foods, \<open>hamTurned j\<close> the same state
  after the turn request towards the food.
\<close>

definition hamRnd :: "nat \<Rightarrow> int" where
  "hamRnd k =
     (if k < 2 then 3
      else if even k then cx (cellAt (min (k div 2 + 2) 399))
      else cy (cellAt (min (k div 2 + 2) 399)))"

definition hamState :: "nat \<Rightarrow> Game" where
  "hamState j =
     \<lparr>snake = map cellAt (rev [0..<Suc (Suc (Suc j))]), food = cellAt (Suc (Suc (Suc j))),
      direction = nextDir (cellAt (Suc j)), queuedDirection = nextDir (cellAt (Suc j)),
      gameState = running, score = 10 * int j, highScore = 10 * int j,
      speedLevel = min (int j) 12,
      loopRef = Some \<lparr>closureFood = cellAt (Suc (Suc (Suc j))), delay = tickRate (min (int j) 12)\<rparr>,
      directionRef = nextDir (cellAt (Suc j)), queuedRef = nextDir (cellAt (Suc j)),
      gameStateRef = running, scoreRef = 10 * int j,
      localStorage = (if j = 0 then None else Some (10 * int j)),
      randomCalls = 4 + 2 * j\<rparr>"

definition hamTurned :: "nat \<Rightarrow> Game" where
  "hamTurned j =
     (hamState j)\<lparr>direction := nextDir (cellAt (Suc (Suc j))),
                  queuedDirection := nextDir (cellAt (Suc (Suc j))),
                  directionRef := nextDir (cellAt (Suc (Suc j))),
                  queuedRef := nextDir (cellAt (Suc (Suc j)))\<rparr>"

section \<open>The keys of the set of taken cells\<close>

lemma digitChar_inj: "a < 10 \<Longrightarrow> b < 10 \<Longrightarrow> digitChar a = digitChar b \<Longrightarrow> a = b"
  unfolding digitChar_def
  by (subst (asm) nth_eq_iff_index_eq) simp_all

lemma digitChar_not_dash: "d < 10 \<Longrightarrow> digitChar d \<noteq> CHR ''-''"
proof -
  assume "d < 10"
  then have "digitChar d \<in> set ''0123456789''"
    unfolding digitChar_def by (intro nth_mem) simp
  then show ?thesis by auto
qed

lemma digits_not_Nil: "digits n \<noteq> []"
  by (subst digits.simps) simp

lemma dash_notin_digits: "CHR ''-'' \<notin> set (digits n)"
proof (induction n rule: digits.induct)
  case (1 n)
  show ?case
  proof (cases "n < 10")
    case True
    then show ?thesis using digitChar_not_dash [of n] by (subst digits.simps) auto
  next
    case False
    then show ?thesis
      using 1 digitChar_not_dash [of "n mod 10"] by (subst digits.simps) auto
  qed
qed

lemma digits_inj: "digits m = digits n \<Longrightarrow> m = n"
proof (induction m arbitrary: n rule: digits.induct)
  case (1 m)
  show ?case
  proof (cases "m < 10")
    case m: True
    show ?thesis
    proof (cases "n < 10")
      case True
      with m 1(2) show ?thesis
        by (simp add: digits.simps [of m] digits.simps [of n] digitChar_inj)
    next
      case False
      with m 1(2) digits_not_Nil [of "n div 10"] show ?thesis
        by (simp add: digits.simps [of m] digits.simps [of n])
    qed
  next
    case m: False
    show ?thesis
    proof (cases "n < 10")
      case True
      with m 1(2) digits_not_Nil [of "m div 10"] show ?thesis
        by (simp add: digits.simps [of m] digits.simps [of n])
    next
      case False
      with m 1(2) have e: "digits (m div 10) = digits (n div 10)"
        and d: "digitChar (m mod 10) = digitChar (n mod 10)"
        by (simp_all add: digits.simps [of m] digits.simps [of n])
      from 1(1) [OF m e] have "m div 10 = n div 10" .
      moreover from d have "m mod 10 = n mod 10" by (intro digitChar_inj) simp_all
      ultimately show ?thesis by (metis div_mult_mod_eq)
    qed
  qed
qed

lemma hd_digits_not_dash: "hd (digits n) \<noteq> CHR ''-''"
  using dash_notin_digits [of n] digits_not_Nil [of n] by (metis hd_in_set)

lemma split_at_dash:
  "CHR ''-'' \<notin> set a \<Longrightarrow> CHR ''-'' \<notin> set b \<Longrightarrow> a @ CHR ''-'' # r = b @ CHR ''-'' # r' \<Longrightarrow> a = b \<and> r = r'"
proof (induction a arbitrary: b)
  case Nil
  then show ?case by (cases b) auto
next
  case (Cons u a)
  then show ?case by (cases b) auto
qed

lemma numberToString_split:
  "numberToString i @ CHR ''-'' # r = numberToString j @ CHR ''-'' # r' \<Longrightarrow> i = j \<and> r = r'"
proof -
  assume a: "numberToString i @ CHR ''-'' # r = numberToString j @ CHR ''-'' # r'"
  consider "i < 0" "j < 0" | "i < 0" "\<not> j < 0" | "\<not> i < 0" "j < 0" | "\<not> i < 0" "\<not> j < 0"
    by blast
  then show ?thesis
  proof cases
    case 1
    with a have "digits (nat (- i)) @ CHR ''-'' # r = digits (nat (- j)) @ CHR ''-'' # r'"
      by (simp add: numberToString_def)
    then have "digits (nat (- i)) = digits (nat (- j)) \<and> r = r'"
      by (rule split_at_dash [OF dash_notin_digits dash_notin_digits])
    with 1 show ?thesis by (auto dest: digits_inj)
  next
    case 2
    with a have "CHR ''-'' # digits (nat (- i)) @ CHR ''-'' # r = digits (nat j) @ CHR ''-'' # r'"
      by (simp add: numberToString_def)
    then have "hd (digits (nat j) @ CHR ''-'' # r') = CHR ''-''" by (metis list.sel(1))
    then show ?thesis using hd_digits_not_dash [of "nat j"] digits_not_Nil [of "nat j"] by simp
  next
    case 3
    with a have "digits (nat i) @ CHR ''-'' # r =  CHR ''-'' # digits (nat (- j)) @ CHR ''-'' # r'"
      by (simp add: numberToString_def)
    then have "hd (digits (nat i) @ CHR ''-'' # r) = CHR ''-''" by (metis list.sel(1))
    then show ?thesis using hd_digits_not_dash [of "nat i"] digits_not_Nil [of "nat i"] by simp
  next
    case 4
    with a have "digits (nat i) @ CHR ''-'' # r = digits (nat j) @ CHR ''-'' # r'"
      by (simp add: numberToString_def)
    then have "digits (nat i) = digits (nat j) \<and> r = r'"
      by (rule split_at_dash [OF dash_notin_digits dash_notin_digits])
    with 4 show ?thesis by (auto dest: digits_inj)
  qed
qed

lemma numberToString_inj: "numberToString i = numberToString j \<Longrightarrow> i = j"
  using numberToString_split [of i "[]" j "[]"] by simp

lemma cellKey_inj: "cellKey a = cellKey b \<Longrightarrow> a = b"
proof -
  assume "cellKey a = cellKey b"
  then have "cx a = cx b \<and> numberToString (cy a) = numberToString (cy b)"
    unfolding cellKey_def using numberToString_split by simp
  then show ?thesis by (auto dest: numberToString_inj)
qed

lemma cellKey_image_mem: "cellKey c \<in> cellKey ` A \<longleftrightarrow> c \<in> A"
  by (auto dest: cellKey_inj)

section \<open>The loop of food placement\<close>

lemma loop_unfold:
  "randomFoodPosition_loop rnd taken n =
     (if cellKey (drawn rnd n) \<in> taken then randomFoodPosition_loop rnd taken (n + 2)
      else Some (drawn rnd n, n + 2))"
  unfolding drawn_def by (rule randomFoodPosition_loop.simps)

lemma loop_first_free:
  assumes "randomFoodPosition_loop rnd taken n = Some y"
  shows "\<exists>k. y = (drawn rnd (n + 2 * k), n + 2 * k + 2) \<and> cellKey (drawn rnd (n + 2 * k)) \<notin> taken
            \<and> (\<forall>j<k. cellKey (drawn rnd (n + 2 * j)) \<in> taken)"
proof (rule randomFoodPosition_loop.raw_induct
    [where P = "\<lambda>rnd taken n y. \<exists>k. y = (drawn rnd (n + 2 * k), n + 2 * k + 2) \<and>
                  cellKey (drawn rnd (n + 2 * k)) \<notin> taken \<and>
                  (\<forall>j<k. cellKey (drawn rnd (n + 2 * j)) \<in> taken)", OF _ assms])
  fix f rnd taken n y
  assume IH: "\<And>rnd taken n y. f rnd taken n = Some y \<Longrightarrow>
      \<exists>k. y = (drawn rnd (n + 2 * k), n + 2 * k + 2) \<and>
          cellKey (drawn rnd (n + 2 * k)) \<notin> taken \<and>
          (\<forall>j<k. cellKey (drawn rnd (n + 2 * j)) \<in> taken)"
    and body: "(if cellKey \<lparr>cx = rnd n, cy = rnd (Suc n)\<rparr> \<in> taken then f rnd taken (n + 2)
                else Some (\<lparr>cx = rnd n, cy = rnd (Suc n)\<rparr>, n + 2)) = Some y"
  show "\<exists>k. y = (drawn rnd (n + 2 * k), n + 2 * k + 2) \<and>
          cellKey (drawn rnd (n + 2 * k)) \<notin> taken \<and>
          (\<forall>j<k. cellKey (drawn rnd (n + 2 * j)) \<in> taken)"
  proof (cases "cellKey (drawn rnd n) \<in> taken")
    case True
    with body have "f rnd taken (n + 2) = Some y" by (simp add: drawn_def)
    from IH [OF this] obtain k where
      k: "y = (drawn rnd (n + 2 + 2 * k), n + 2 + 2 * k + 2)"
         "cellKey (drawn rnd (n + 2 + 2 * k)) \<notin> taken"
         "\<forall>j<k. cellKey (drawn rnd (n + 2 + 2 * j)) \<in> taken"
      by blast
    have shift: "n + 2 + 2 * i = n + 2 * Suc i" for i by simp
    have "cellKey (drawn rnd (n + 2 * j)) \<in> taken" if "j < Suc k" for j
    proof (cases j)
      case 0
      with True show ?thesis by simp
    next
      case (Suc i)
      with that k(3) have "cellKey (drawn rnd (n + 2 + 2 * i)) \<in> taken" by simp
      then show ?thesis unfolding shift Suc .
    qed
    with k(1,2) show ?thesis unfolding shift by blast
  next
    case False
    with body have "y = (drawn rnd n, n + 2)" by (simp add: drawn_def)
    with False show ?thesis by (intro exI [of _ 0]) simp
  qed
qed

lemma loop_returns:
  "cellKey (drawn rnd (n + 2 * k)) \<notin> taken \<Longrightarrow> \<exists>y. randomFoodPosition_loop rnd taken n = Some y"
proof (induction k arbitrary: n)
  case 0
  then show ?case by (subst loop_unfold) simp
next
  case (Suc k)
  have e: "n + 2 * Suc k = n + 2 + 2 * k" by simp
  from Suc.IH [OF Suc.prems [unfolded e]] show ?case by (subst loop_unfold) simp
qed

lemma loop_None:
  "(\<forall>k. cellKey (drawn rnd (n + 2 * k)) \<in> taken) \<Longrightarrow> randomFoodPosition_loop rnd taken n = None"
  using loop_first_free [of rnd taken n] by (cases "randomFoodPosition_loop rnd taken n") auto

lemma randomFoodPosition_Some:
  assumes "randomFoodPosition rnd forbidden n = Some (c, m)"
  shows "c \<notin> set forbidden" and "\<exists>k. c = drawn rnd (n + 2 * k) \<and> m = n + 2 * k + 2"
  using loop_first_free [OF assms [unfolded randomFoodPosition_def]] by auto

lemma randomFoodPosition_first_free:
  assumes "randomFoodPosition rnd forbidden n = Some (c, m)"
  shows "\<exists>k. c = drawn rnd (n + 2 * k) \<and> m = n + 2 * k + 2 \<and> c \<notin> set forbidden \<and>
           (\<forall>j<k. drawn rnd (n + 2 * j) \<in> set forbidden)"
proof -
  from loop_first_free [OF assms [unfolded randomFoodPosition_def]] obtain k where
    k: "c = drawn rnd (n + 2 * k)" "m = n + 2 * k + 2"
       "cellKey (drawn rnd (n + 2 * k)) \<notin> set (map cellKey forbidden)"
       "\<forall>j<k. cellKey (drawn rnd (n + 2 * j)) \<in> set (map cellKey forbidden)"
    by auto
  from k(3) have "drawn rnd (n + 2 * k) \<notin> set forbidden" by (simp add: cellKey_image_mem)
  moreover from k(4) have "\<forall>j<k. drawn rnd (n + 2 * j) \<in> set forbidden"
    by (simp add: cellKey_image_mem)
  ultimately show ?thesis using k(1,2) by blast
qed

lemma randomFoodPosition_returns:
  assumes "drawn rnd (n + 2 * k) \<notin> set forbidden"
  shows "\<exists>c m. randomFoodPosition rnd forbidden n = Some (c, m)"
proof -
  from assms have "cellKey (drawn rnd (n + 2 * k)) \<notin> set (map cellKey forbidden)"
    by (simp add: cellKey_image_mem)
  from loop_returns [OF this] show ?thesis by (simp add: randomFoodPosition_def)
qed

lemma randomFoodPosition_None:
  assumes "\<forall>k. drawn rnd (n + 2 * k) \<in> set forbidden"
  shows "randomFoodPosition rnd forbidden n = None"
proof -
  from assms have "\<forall>k. cellKey (drawn rnd (n + 2 * k)) \<in> set (map cellKey forbidden)"
    by (simp add: cellKey_image_mem)
  from loop_None [OF this] show ?thesis by (simp only: randomFoodPosition_def)
qed

lemma set_allCells: "set allCells = {c. 0 \<le> cx c \<and> cx c < BOARD_SIZE \<and> 0 \<le> cy c \<and> cy c < BOARD_SIZE}"
proof -
  have "c \<in> set allCells \<longleftrightarrow> 0 \<le> cx c \<and> cx c < BOARD_SIZE \<and> 0 \<le> cy c \<and> cy c < BOARD_SIZE" for c
    by (cases c) (force simp add: allCells_def image_iff)
  then show ?thesis by blast
qed

lemma drawn_on_board: "inRange rnd \<Longrightarrow> drawn rnd k \<in> set allCells"
  by (simp add: set_allCells inRange_def drawn_def)

section \<open>The three outcomes of a tick\<close>

lemma Coordinate_fields_eq: "(cx a = cx b \<and> cy a = cy b) = ((a :: Coordinate) = b)"
  by (cases a, cases b) simp

lemma list_ex_segment:
  "list_ex (\<lambda>segment. cx segment = cx c \<and> cy segment = cy c) xs \<longleftrightarrow> (c :: Coordinate) \<in> set xs"
  unfolding Coordinate_fields_eq list_ex_iff by blast

lemma intervalCallback_unfold:
  "intervalCallback rnd t s =
     (case snake s of
        [] \<Rightarrow> Inl TypeError
      | head # rest \<Rightarrow>
          if collides (getNextHead head (queuedRef s)) (snake s)
          then Inr (updateHighScore (scoreRef s)
                     (s\<lparr>directionRef := queuedRef s, loopRef := None, gameState := over\<rparr>))
          else if getNextHead head (queuedRef s) = closureFood t
          then (case randomFoodPosition rnd (getNextHead head (queuedRef s) # snake s) (randomCalls s) of
              None \<Rightarrow> Inl Diverges
            | Some (newFood, n) \<Rightarrow>
                Inr (s\<lparr>directionRef := queuedRef s,
                       snake := getNextHead head (queuedRef s) # snake s, food := newFood,
                       score := score s + 10, scoreRef := score s + 10,
                       speedLevel := min (speedLevel s + 1) 12, randomCalls := n\<rparr>))
          else Inr (s\<lparr>directionRef := queuedRef s,
                  snake := getNextHead head (queuedRef s) # butlast (snake s)\<rparr>))"
  unfolding intervalCallback_def Let_def list_ex_segment
  unfolding Coordinate_fields_eq
  by (simp add: collides_def stopLoop_def split: list.splits option.splits)

lemma intervalCallback_collided:
  assumes "snake s = head # rest" and "collides (getNextHead head (queuedRef s)) (snake s)"
  shows "intervalCallback rnd t s =
           Inr (updateHighScore (scoreRef s)
                  (s\<lparr>directionRef := queuedRef s, loopRef := None, gameState := over\<rparr>))"
  using assms(2) by (simp add: intervalCallback_unfold assms(1))

lemma intervalCallback_ate:
  assumes "snake s = head # rest" and "\<not> collides (getNextHead head (queuedRef s)) (snake s)"
    and "getNextHead head (queuedRef s) = closureFood t"
  shows "intervalCallback rnd t s =
           (case randomFoodPosition rnd (getNextHead head (queuedRef s) # snake s) (randomCalls s) of
              None \<Rightarrow> Inl Diverges
            | Some (newFood, n) \<Rightarrow>
                Inr (s\<lparr>directionRef := queuedRef s,
                       snake := getNextHead head (queuedRef s) # snake s, food := newFood,
                       score := score s + 10, scoreRef := score s + 10,
                       speedLevel := min (speedLevel s + 1) 12, randomCalls := n\<rparr>))"
  using assms(2,3) by (simp add: intervalCallback_unfold assms(1))

lemma intervalCallback_moved:
  assumes "snake s = head # rest" and "\<not> collides (getNextHead head (queuedRef s)) (snake s)"
    and "getNextHead head (queuedRef s) \<noteq> closureFood t"
  shows "intervalCallback rnd t s =
           Inr (s\<lparr>directionRef := queuedRef s,
                  snake := getNextHead head (queuedRef s) # butlast (snake s)\<rparr>)"
  using assms(2,3) by (simp add: intervalCallback_unfold assms(1))

section \<open>Effects\<close>

lemma updateHighScore_fields [simp]:
  "snake (updateHighScore sc s) = snake s"
  "food (updateHighScore sc s) = food s"
  "direction (updateHighScore sc s) = direction s"
  "queuedDirection (updateHighScore sc s) = queuedDirection s"
  "gameState (updateHighScore sc s) = gameState s"
  "score (updateHighScore sc s) = score s"
  "speedLevel (updateHighScore sc s) = speedLevel s"
  "loopRef (updateHighScore sc s) = loopRef s"
  "directionRef (updateHighScore sc s) = directionRef s"
  "queuedRef (updateHighScore sc s) = queuedRef s"
  "gameStateRef (updateHighScore sc s) = gameStateRef s"
  "scoreRef (updateHighScore sc s) = scoreRef s"
  "randomCalls (updateHighScore sc s) = randomCalls s"
  "highScore (updateHighScore sc s) = max (highScore s) sc"
  by (simp_all add: updateHighScore_def)

lemma runEffects_fields [simp]:
  "snake (runEffects prev s) = snake s"
  "food (runEffects prev s) = food s"
  "direction (runEffects prev s) = direction s"
  "queuedDirection (runEffects prev s) = queuedDirection s"
  "gameState (runEffects prev s) = gameState s"
  "score (runEffects prev s) = score s"
  "speedLevel (runEffects prev s) = speedLevel s"
  "randomCalls (runEffects prev s) = randomCalls s"
  by (simp_all add: runEffects_def Let_def startLoop_def stopLoop_def)

lemma runEffects_loopRef:
  "loopRef (runEffects prev s) =
     (if gameState s \<noteq> gameState prev \<or> food s \<noteq> food prev \<or>
         tickRate (speedLevel s) \<noteq> tickRate (speedLevel prev)
      then (if gameState s = running
            then Some \<lparr>closureFood = food s, delay = tickRate (speedLevel s)\<rparr> else None)
      else loopRef s)"
  unfolding Coordinate_fields_eq [of "food s" "food prev", symmetric]
  by (simp add: runEffects_def Let_def startLoop_def stopLoop_def)

lemma runEffects_refs:
  "directionRef (runEffects prev s) = (if direction s \<noteq> direction prev then direction s else directionRef s)"
  "queuedRef (runEffects prev s) = (if queuedDirection s \<noteq> queuedDirection prev then queuedDirection s else queuedRef s)"
  "scoreRef (runEffects prev s) = (if score s \<noteq> score prev then score s else scoreRef s)"
  "highScore (runEffects prev s) = (if score s \<noteq> score prev then max (highScore s) (score s) else highScore s)"
  by (simp_all add: runEffects_def Let_def startLoop_def stopLoop_def)

section \<open>Reachable states\<close>

lemma distinct_INITIAL_SNAKE: "distinct INITIAL_SNAKE" "INITIAL_SNAKE \<noteq> []"
  by (simp_all add: INITIAL_SNAKE_def)

lemma resetGame_Inr:
  assumes "resetGame rnd s = Inr h"
  shows "bodyOk h" and "loopRef h = loopRef s"
proof -
  from assms obtain newFood n where
    r: "randomFoodPosition rnd INITIAL_SNAKE (randomCalls s) = Some (newFood, n)"
    and h: "h = s\<lparr>snake := INITIAL_SNAKE, food := newFood,
                 direction := RIGHT, queuedDirection := RIGHT,
                 directionRef := RIGHT, queuedRef := RIGHT,
                 scoreRef := 0, score := 0, speedLevel := 0,
                 gameState := running, randomCalls := n\<rparr>"
    by (auto simp add: resetGame_def split: option.splits)
  from randomFoodPosition_Some(1) [OF r] show "bodyOk h"
    by (simp add: h bodyOk_def distinct_INITIAL_SNAKE)
  show "loopRef h = loopRef s" by (simp add: h)
qed

lemma toggle_Inr:
  assumes "(case gameState s of
              running \<Rightarrow> Inr (s\<lparr>gameState := paused\<rparr>)
            | paused \<Rightarrow> Inr (s\<lparr>gameState := running\<rparr>)
            | idle \<Rightarrow> map_sum id (\<lambda>s'. s'\<lparr>gameState := running\<rparr>) (resetGame rnd s)
            | over \<Rightarrow> map_sum id (\<lambda>s'. s'\<lparr>gameState := running\<rparr>) (resetGame rnd s)) = Inr h"
    and "bodyOk s"
  shows "bodyOk h \<and> loopRef h = loopRef s"
proof (cases "gameState s")
  case idle
  with assms(1) obtain h' where "resetGame rnd s = Inr h'" "h = h'\<lparr>gameState := running\<rparr>"
    by (cases "resetGame rnd s") auto
  with resetGame_Inr [of rnd s h'] show ?thesis by (simp add: bodyOk_def)
next
  case running
  with assms show ?thesis by (auto simp add: bodyOk_def)
next
  case paused
  with assms show ?thesis by (auto simp add: bodyOk_def)
next
  case over
  with assms(1) obtain h' where "resetGame rnd s = Inr h'" "h = h'\<lparr>gameState := running\<rparr>"
    by (cases "resetGame rnd s") auto
  with resetGame_Inr [of rnd s h'] show ?thesis by (simp add: bodyOk_def)
qed

lemma changeDirection_body:
  "bodyOk s \<Longrightarrow> bodyOk (changeDirection d s) \<and> loopRef (changeDirection d s) = loopRef s"
  by (simp add: changeDirection_def bodyOk_def Let_def)

lemma handleKeyDown_Inr:
  assumes "handleKeyDown rnd key s = Inr h" and "bodyOk s"
  shows "bodyOk h \<and> loopRef h = loopRef s"
proof (cases "keyMap key")
  case None
  show ?thesis
  proof (cases "key = ''Space''")
    case True
    with None assms(1) show ?thesis
      by (intro toggle_Inr [OF _ assms(2), of rnd]) (simp add: handleKeyDown_def)
  next
    case False
    with None assms show ?thesis by (simp add: handleKeyDown_def)
  qed
next
  case (Some nextDirection)
  with assms show ?thesis
    by (auto simp add: handleKeyDown_def Let_def bodyOk_def split: if_splits)
qed

lemma intervalCallback_Inr:
  assumes "intervalCallback rnd t s = Inr h" and "bodyOk s" and "closureFood t = food s"
  shows "bodyOk h \<and> (loopRef h = None \<or> loopRef h = loopRef s)"
proof -
  from assms(2) obtain head rest where sn: "snake s = head # rest"
    by (cases "snake s") (auto simp add: bodyOk_def)
  let ?nh = "getNextHead head (queuedRef s)"
  show ?thesis
  proof (cases "collides ?nh (snake s)")
    case True
    from assms(1) [unfolded intervalCallback_collided [OF sn True]] assms(2)
    show ?thesis by (auto simp add: bodyOk_def)
  next
    case nc: False
    then have fresh: "?nh \<notin> set (snake s)" by (simp add: collides_def)
    show ?thesis
    proof (cases "?nh = closureFood t")
      case True
      from assms(1) [unfolded intervalCallback_ate [OF sn nc True]]
      obtain newFood n where
        r: "randomFoodPosition rnd (?nh # snake s) (randomCalls s) = Some (newFood, n)"
        and h: "h = s\<lparr>directionRef := queuedRef s,
                       snake := ?nh # snake s, food := newFood,
                       score := score s + 10, scoreRef := score s + 10,
                       speedLevel := min (speedLevel s + 1) 12, randomCalls := n\<rparr>"
        by (auto split: option.splits)
      from randomFoodPosition_Some(1) [OF r] fresh assms(2) show ?thesis
        by (simp add: h bodyOk_def)
    next
      case False
      from assms(1) [unfolded intervalCallback_moved [OF sn nc False]]
      have h: "h = s\<lparr>directionRef := queuedRef s, snake := ?nh # butlast (snake s)\<rparr>"
        by simp
      from fresh assms(2) have "distinct (?nh # butlast (snake s))"
        by (auto simp add: bodyOk_def distinct_butlast dest: in_set_butlastD)
      moreover from False assms(2,3) have "food s \<notin> set (?nh # butlast (snake s))"
        by (auto simp add: bodyOk_def dest: in_set_butlastD)
      ultimately show ?thesis using assms(2) by (simp add: h bodyOk_def)
    qed
  qed
qed

lemma wellFormed_bodyOk: "wellFormed s \<Longrightarrow> bodyOk s"
  by (simp add: wellFormed_def bodyOk_def)

lemma handler_Inr:
  assumes "handler rnd e s = Inr h" and "wellFormed s"
  shows "bodyOk h \<and> (loopRef h = None \<or> loopRef h = loopRef s)"
proof (cases e)
  case Timer
  show ?thesis
  proof (cases "loopRef s")
    case None
    with Timer assms show ?thesis by (simp add: wellFormed_bodyOk)
  next
    case (Some t)
    with assms(2) have "closureFood t = food s" by (simp add: wellFormed_def)
    with intervalCallback_Inr [of rnd t s h] Timer Some assms show ?thesis
      by (simp add: wellFormed_bodyOk)
  qed
next
  case (KeyDown key)
  with handleKeyDown_Inr [of rnd key s h] assms show ?thesis by (simp add: wellFormed_bodyOk)
next
  case ClickToggle
  with toggle_Inr [where s = s and rnd = rnd and h = h] assms show ?thesis
    by (simp add: wellFormed_bodyOk togglePause_def)
next
  case (ClickDirection d)
  with changeDirection_body [of s d] assms show ?thesis by (auto simp add: wellFormed_bodyOk)
qed

lemma runEffects_wellFormed:
  assumes "wellFormed s" and "bodyOk h" and "loopRef h = None \<or> loopRef h = loopRef s"
  shows "wellFormed (runEffects s h)"
proof -
  have "case loopRef (runEffects s h) of
          None \<Rightarrow> True
        | Some t \<Rightarrow> closureFood t = food h \<and> delay t = tickRate (speedLevel h)"
    using assms(1,3) by (auto simp add: runEffects_loopRef wellFormed_def split: option.splits)
  with assms(2) show ?thesis by (simp add: wellFormed_def bodyOk_def split: option.splits)
qed

lemma step_wellFormed:
  assumes "step rnd e s = Inr s'" and "wellFormed s"
  shows "wellFormed s'"
proof -
  from assms(1) obtain h where h: "handler rnd e s = Inr h" and s': "s' = runEffects s h"
    by (cases "handler rnd e s") (auto simp add: step_def)
  from handler_Inr [OF h assms(2)] runEffects_wellFormed [OF assms(2)] show ?thesis
    unfolding s' by blast
qed

lemma mount_wellFormed:
  assumes "mount rnd stored = Inr s"
  shows "wellFormed s"
proof -
  from assms obtain newFood n where
    r: "randomFoodPosition rnd INITIAL_SNAKE 0 = Some (newFood, n)"
    and s: "snake s = INITIAL_SNAKE" "food s = newFood" "speedLevel s = 0" "loopRef s = None"
    by (auto simp add: mount_def split: option.splits)
  from randomFoodPosition_Some(1) [OF r] show ?thesis
    by (simp add: wellFormed_def s distinct_INITIAL_SNAKE)
qed

lemma reachable_wellFormed: "reachable rnd s \<Longrightarrow> wellFormed s"
  by (induction rule: reachable.induct) (auto intro: mount_wellFormed step_wellFormed)

section \<open>Evaluating a game\<close>

lemma randomFoodPosition_unfold:
  "randomFoodPosition rnd forbidden n =
     (if drawn rnd n \<in> set forbidden then randomFoodPosition rnd forbidden (n + 2)
      else Some (drawn rnd n, n + 2))"
  unfolding randomFoodPosition_def
  by (subst loop_unfold) (simp add: cellKey_image_mem)

lemma demoRnd_draws:
  "drawn demoRnd 0 = \<lparr>cx = 3, cy = 3\<rparr>"
  "drawn demoRnd 2 = \<lparr>cx = 10, cy = 10\<rparr>"
  "drawn demoRnd 4 = \<lparr>cx = 0, cy = 0\<rparr>"
  by (simp_all add: drawn_def demoRnd_def rndOf_def)

lemma demo_mount: "mount demoRnd None = Inr demoMounted"
  by (simp add: mount_def randomFoodPosition_unfold [of demoRnd _ 0] demoRnd_draws INITIAL_SNAKE_def
      updateHighScore_def demoMounted_def)

lemma demo_start: "step demoRnd ClickToggle demoMounted = Inr demoStarted"
  by (simp add: step_def togglePause_def resetGame_def demoMounted_def demoStarted_def
      randomFoodPosition_unfold [of demoRnd _ 2] demoRnd_draws INITIAL_SNAKE_def
      runEffects_def startLoop_def stopLoop_def tickRate_def TICK_BASE_def SPEED_STEP_def)

lemma demo_eat: "step demoRnd Timer demoStarted = Inr demoAte"
  by (simp add: step_def intervalCallback_unfold demoStarted_def demoAte_def collides_def BOARD_SIZE_def
      randomFoodPosition_unfold [of demoRnd _ 4] demoRnd_draws INITIAL_SNAKE_def updateHighScore_def
      runEffects_def startLoop_def stopLoop_def tickRate_def TICK_BASE_def SPEED_STEP_def)

lemma demo_reachable:
  "reachable demoRnd demoMounted" "reachable demoRnd demoStarted" "reachable demoRnd demoAte"
proof -
  show m: "reachable demoRnd demoMounted" by (rule reachable.mounted [OF demo_mount])
  have s: "reachable demoRnd demoStarted"
    by (rule reachable.stepped [OF m _ demo_start]) simp
  then show "reachable demoRnd demoStarted" .
  show "reachable demoRnd demoAte"
    by (rule reachable.stepped [OF s _ demo_eat]) (simp add: demoStarted_def)
qed

section \<open>The refs mirror the state\<close>

lemma runEffects_gameStateRef:
  "gameStateRef (runEffects prev s) =
     (if gameState s \<noteq> gameState prev \<or> food s \<noteq> food prev \<or>
         tickRate (speedLevel s) \<noteq> tickRate (speedLevel prev)
      then gameState s else gameStateRef s)"
  unfolding Coordinate_fields_eq [of "food s" "food prev", symmetric]
  by (simp add: runEffects_def Let_def startLoop_def stopLoop_def)

lemma refsInSync_runEffects:
  "refsInSync (runEffects prev h) \<longleftrightarrow>
     direction h = queuedDirection h \<and>
     (if direction h \<noteq> direction prev then direction h else directionRef h) = queuedDirection h \<and>
     (if queuedDirection h \<noteq> queuedDirection prev then queuedDirection h else queuedRef h) = queuedDirection h \<and>
     (if score h \<noteq> score prev then score h else scoreRef h) = score h \<and>
     (if gameState h \<noteq> gameState prev \<or> food h \<noteq> food prev \<or>
         tickRate (speedLevel h) \<noteq> tickRate (speedLevel prev)
      then True else gameStateRef h = gameState h \<and> (loopRef h \<noteq> None) = (gameState h = running))"
  by (simp add: refsInSync_def runEffects_refs runEffects_loopRef runEffects_gameStateRef)

lemma resetGame_sync:
  assumes "resetGame rnd s = Inr h" and "refsInSync s"
  shows "refsInSync (runEffects s (h\<lparr>gameState := running\<rparr>))"
proof -
  from assms(1) obtain newFood n where
    h: "h = s\<lparr>snake := INITIAL_SNAKE, food := newFood,
                 direction := RIGHT, queuedDirection := RIGHT,
                 directionRef := RIGHT, queuedRef := RIGHT,
                 scoreRef := 0, score := 0, speedLevel := 0,
                 gameState := running, randomCalls := n\<rparr>"
    by (auto simp add: resetGame_def split: option.splits)
  from assms(2) show ?thesis
    unfolding refsInSync_runEffects by (simp add: h refsInSync_def)
qed

lemma toggle_sync:
  assumes "(case gameState s of
              running \<Rightarrow> Inr (s\<lparr>gameState := paused\<rparr>)
            | paused \<Rightarrow> Inr (s\<lparr>gameState := running\<rparr>)
            | idle \<Rightarrow> map_sum id (\<lambda>s'. s'\<lparr>gameState := running\<rparr>) (resetGame rnd s)
            | over \<Rightarrow> map_sum id (\<lambda>s'. s'\<lparr>gameState := running\<rparr>) (resetGame rnd s)) = Inr h"
    and "refsInSync s"
  shows "refsInSync (runEffects s h)"
proof (cases "gameState s")
  case idle
  with assms(1) obtain h' where "resetGame rnd s = Inr h'" "h = h'\<lparr>gameState := running\<rparr>"
    by (cases "resetGame rnd s") auto
  with resetGame_sync [of rnd s h'] assms(2) show ?thesis by simp
next
  case running
  with assms have "h = s\<lparr>gameState := paused\<rparr>" by simp
  with assms(2) running show ?thesis unfolding refsInSync_runEffects by (simp add: refsInSync_def)
next
  case paused
  with assms have "h = s\<lparr>gameState := running\<rparr>" by simp
  with assms(2) paused show ?thesis unfolding refsInSync_runEffects by (simp add: refsInSync_def)
next
  case over
  with assms(1) obtain h' where "resetGame rnd s = Inr h'" "h = h'\<lparr>gameState := running\<rparr>"
    by (cases "resetGame rnd s") auto
  with resetGame_sync [of rnd s h'] assms(2) show ?thesis by simp
qed

lemma changeDirection_sync:
  "refsInSync s \<Longrightarrow> refsInSync (runEffects s (changeDirection d s))"
  unfolding refsInSync_runEffects by (simp add: changeDirection_def Let_def refsInSync_def)

lemma handleKeyDown_direction:
  "keyMap key = Some d \<Longrightarrow> handleKeyDown rnd key s = Inr (changeDirection d s)"
  by (simp add: handleKeyDown_def changeDirection_def Let_def)

lemma handleKeyDown_sync:
  assumes "handleKeyDown rnd key s = Inr h" and "refsInSync s"
  shows "refsInSync (runEffects s h)"
proof (cases "keyMap key")
  case None
  show ?thesis
  proof (cases "key = ''Space''")
    case True
    with None assms(1) show ?thesis
      by (intro toggle_sync [OF _ assms(2), of rnd]) (simp add: handleKeyDown_def)
  next
    case False
    with None assms have "h = s" by (simp add: handleKeyDown_def)
    with assms(2) show ?thesis unfolding refsInSync_runEffects by (simp add: refsInSync_def)
  qed
next
  case (Some d)
  from assms(1) [unfolded handleKeyDown_direction [OF Some]] changeDirection_sync [OF assms(2), of d]
  show ?thesis by auto
qed

lemma intervalCallback_sync:
  assumes "intervalCallback rnd t s = Inr h" and "refsInSync s" and "wellFormed s"
    and "loopRef s = Some t"
  shows "refsInSync (runEffects s h)"
proof -
  from assms(3) obtain head rest where sn: "snake s = head # rest"
    by (cases "snake s") (auto simp add: wellFormed_def)
  from assms(2,4) have run: "gameState s = running" by (simp add: refsInSync_def)
  from assms(3,4) have cf: "closureFood t = food s" by (simp add: wellFormed_def)
  let ?nh = "getNextHead head (queuedRef s)"
  show ?thesis
  proof (cases "collides ?nh (snake s)")
    case True
    from assms(1) [unfolded intervalCallback_collided [OF sn True]] assms(2) run
    show ?thesis unfolding refsInSync_runEffects by (auto simp add: refsInSync_def)
  next
    case nc: False
    show ?thesis
    proof (cases "?nh = closureFood t")
      case True
      from assms(1) [unfolded intervalCallback_ate [OF sn nc True]]
      obtain newFood n where
        h: "h = s\<lparr>directionRef := queuedRef s,
                       snake := ?nh # snake s, food := newFood,
                       score := score s + 10, scoreRef := score s + 10,
                       speedLevel := min (speedLevel s + 1) 12, randomCalls := n\<rparr>"
        by (auto split: option.splits)
      from assms(2) show ?thesis
        unfolding refsInSync_runEffects by (simp add: h refsInSync_def)
    next
      case False
      from assms(1) [unfolded intervalCallback_moved [OF sn nc False]]
      have h: "h = s\<lparr>directionRef := queuedRef s, snake := ?nh # butlast (snake s)\<rparr>"
        by simp
      from assms(2) show ?thesis
        unfolding refsInSync_runEffects by (simp add: h refsInSync_def)
    qed
  qed
qed

lemma step_refsInSync:
  assumes "step rnd e s = Inr s'" and "wellFormed s" and "refsInSync s"
  shows "refsInSync s'"
proof -
  from assms(1) obtain h where h: "handler rnd e s = Inr h" and s': "s' = runEffects s h"
    by (cases "handler rnd e s") (auto simp add: step_def)
  show ?thesis
  proof (cases e)
    case Timer
    show ?thesis
    proof (cases "loopRef s")
      case None
      with Timer h have "h = s" by simp
      with assms(3) show ?thesis unfolding s' refsInSync_runEffects by (simp add: refsInSync_def)
    next
      case (Some t)
      with Timer h intervalCallback_sync [of rnd t s h] assms(2,3) show ?thesis
        unfolding s' by simp
    qed
  next
    case (KeyDown key)
    with h handleKeyDown_sync [of rnd key s h] assms(3) show ?thesis unfolding s' by simp
  next
    case ClickToggle
    with h toggle_sync [where s = s and rnd = rnd and h = h] assms(3) show ?thesis
      unfolding s' by (simp add: togglePause_def)
  next
    case (ClickDirection d)
    with h changeDirection_sync [OF assms(3), of d] show ?thesis unfolding s' by auto
  qed
qed

lemma mount_refsInSync: "mount rnd stored = Inr s \<Longrightarrow> refsInSync s"
  by (auto simp add: mount_def refsInSync_def split: option.splits)

lemma reachable_refsInSync: "reachable rnd s \<Longrightarrow> refsInSync s"
proof (induction rule: reachable.induct)
  case (mounted stored s)
  then show ?case by (rule mount_refsInSync)
next
  case (stepped s e s')
  from step_refsInSync [OF stepped(3) reachable_wellFormed [OF stepped(1)] stepped(4)]
  show ?case .
qed

section \<open>Collisions\<close>

lemma step_Timer_collided:
  assumes "snake s = head # rest" and "loopRef s = Some t"
    and "collides (getNextHead head (queuedRef s)) (snake s)"
  shows "\<exists>s'. step rnd Timer s = Inr s' \<and> snake s' = snake s \<and> food s' = food s \<and>
           score s' = score s \<and> speedLevel s' = speedLevel s \<and> loopRef s' = None \<and>
           gameState s' = over \<and> highScore s' = max (highScore s) (scoreRef s)"
  by (simp add: step_def assms(2) intervalCallback_collided [OF assms(1,3)]
      runEffects_loopRef runEffects_refs)

text \<open>
  Claim C4. When the next head is outside the board or on a segment of the snake as it is
  before the move, the tick ends the game, whatever the food is: the snake, the food, the
  score and the speed level stay as they are, the interval is cleared, the game state
  becomes \<open>over\<close> and the high score is compared with the score.
\<close>

theorem collision_ends_game:
  assumes "snake s = head # rest" and "loopRef s = Some t"
    and "collides (getNextHead head (queuedRef s)) (snake s)"
  shows "\<exists>s'. step rnd Timer s = Inr s' \<and> snake s' = snake s \<and> food s' = food s \<and>
           score s' = score s \<and> speedLevel s' = speedLevel s \<and> loopRef s' = None \<and>
           gameState s' = over \<and> highScore s' = max (highScore s) (scoreRef s)"
  using assms by (rule step_Timer_collided)

theorem collision_ends_game_witness:
  "snake atLeftWall = \<lparr>cx = 0, cy = 5\<rparr> # [\<lparr>cx = 1, cy = 5\<rparr>, \<lparr>cx = 2, cy = 5\<rparr>] \<and>
   loopRef atLeftWall = Some \<lparr>closureFood = \<lparr>cx = 10, cy = 10\<rparr>, delay = 148\<rparr> \<and>
   collides (getNextHead \<lparr>cx = 0, cy = 5\<rparr> (queuedRef atLeftWall)) (snake atLeftWall) \<and>
   (\<exists>s'. step demoRnd Timer atLeftWall = Inr s' \<and> snake s' = snake atLeftWall \<and>
         loopRef s' = None \<and> gameState s' = over \<and> highScore s' = 20)"
proof -
  have a: "snake atLeftWall = \<lparr>cx = 0, cy = 5\<rparr> # [\<lparr>cx = 1, cy = 5\<rparr>, \<lparr>cx = 2, cy = 5\<rparr>]"
    and b: "loopRef atLeftWall = Some \<lparr>closureFood = \<lparr>cx = 10, cy = 10\<rparr>, delay = 148\<rparr>"
    and c: "collides (getNextHead \<lparr>cx = 0, cy = 5\<rparr> (queuedRef atLeftWall)) (snake atLeftWall)"
    by (simp_all add: atLeftWall_def collides_def)
  from collision_ends_game [OF a b c, of demoRnd] a b c show ?thesis
    by (auto simp add: atLeftWall_def)
qed

text \<open>
  Claim C5. The body that the next head is tested against includes the tail: when the next
  head is the cell of the last segment, the tick ends the game and the snake does not move.
\<close>

theorem tail_cell_collides:
  assumes "snake s = head # rest" and "loopRef s = Some t"
    and "getNextHead head (queuedRef s) = last (snake s)"
  shows "\<exists>s'. step rnd Timer s = Inr s' \<and> gameState s' = over \<and> snake s' = snake s \<and>
           loopRef s' = None"
proof -
  from assms(1,3) have "getNextHead head (queuedRef s) \<in> set (snake s)"
    by (metis last_in_set list.distinct(1))
  then have "collides (getNextHead head (queuedRef s)) (snake s)" by (simp add: collides_def)
  from step_Timer_collided [OF assms(1,2) this, of rnd] show ?thesis by blast
qed

theorem tail_cell_collides_witness:
  "snake coiled = \<lparr>cx = 5, cy = 5\<rparr> # [\<lparr>cx = 5, cy = 6\<rparr>, \<lparr>cx = 6, cy = 6\<rparr>, \<lparr>cx = 6, cy = 5\<rparr>] \<and>
   length (snake coiled) = 4 \<and>
   getNextHead \<lparr>cx = 5, cy = 5\<rparr> (queuedRef coiled) = last (snake coiled) \<and>
   (\<exists>s'. step demoRnd Timer coiled = Inr s' \<and> gameState s' = over \<and> snake s' = snake coiled \<and>
         loopRef s' = None)"
proof -
  have a: "snake coiled = \<lparr>cx = 5, cy = 5\<rparr> # [\<lparr>cx = 5, cy = 6\<rparr>, \<lparr>cx = 6, cy = 6\<rparr>, \<lparr>cx = 6, cy = 5\<rparr>]"
    and b: "loopRef coiled = Some \<lparr>closureFood = \<lparr>cx = 10, cy = 10\<rparr>, delay = 154\<rparr>"
    and c: "getNextHead \<lparr>cx = 5, cy = 5\<rparr> (queuedRef coiled) = last (snake coiled)"
    by (simp_all add: coiled_def)
  from tail_cell_collides [OF a b c, of demoRnd] a c show ?thesis by simp
qed

text \<open>
  Claim C7. In every state the game reaches, after the first render and after every event,
  the food is on no segment of the snake.
\<close>

theorem food_never_on_snake: "reachable rnd s \<Longrightarrow> food s \<notin> set (snake s)"
  by (drule reachable_wellFormed) (simp add: wellFormed_def)

theorem food_never_on_snake_witness:
  "reachable demoRnd demoAte \<and> food demoAte \<notin> set (snake demoAte)"
  using food_never_on_snake [OF demo_reachable(3)] demo_reachable(3) by simp

text \<open>
  Claim C8. In every state the game reaches, no two segments of the snake are on the same
  cell: the length of the snake is the number of distinct cells in it.
\<close>

theorem snake_cells_distinct:
  "reachable rnd s \<Longrightarrow> distinct (snake s) \<and> length (snake s) = card (set (snake s))"
  by (drule reachable_wellFormed) (simp add: wellFormed_def distinct_card)

theorem snake_cells_distinct_witness:
  "reachable demoRnd demoAte \<and> distinct (snake demoAte) \<and>
   length (snake demoAte) = card (set (snake demoAte)) \<and> length (snake demoAte) = 4"
  using snake_cells_distinct [OF demo_reachable(3)] demo_reachable(3)
  by (simp add: demoAte_def INITIAL_SNAKE_def)

section \<open>Eating\<close>

lemma step_Timer_ate:
  assumes "snake s = head # rest" and "loopRef s = Some t"
    and "\<not> collides (getNextHead head (queuedRef s)) (snake s)"
    and "getNextHead head (queuedRef s) = closureFood t"
    and "randomFoodPosition rnd (getNextHead head (queuedRef s) # snake s) (randomCalls s) = Some (newFood, n)"
  shows "\<exists>s'. step rnd Timer s = Inr s' \<and> snake s' = getNextHead head (queuedRef s) # snake s \<and>
           food s' = newFood \<and> score s' = score s + 10 \<and>
           speedLevel s' = min (speedLevel s + 1) 12"
  by (simp add: step_def assms(2,5) intervalCallback_ate [OF assms(1,3,4)])

lemma step_Timer_moved:
  assumes "snake s = head # rest" and "loopRef s = Some t"
    and "\<not> collides (getNextHead head (queuedRef s)) (snake s)"
    and "getNextHead head (queuedRef s) \<noteq> closureFood t"
  shows "\<exists>s'. step rnd Timer s = Inr s' \<and>
           snake s' = getNextHead head (queuedRef s) # butlast (snake s) \<and>
           food s' = food s \<and> score s' = score s \<and> speedLevel s' = speedLevel s"
  by (simp add: step_def assms(2) intervalCallback_moved [OF assms(1,3,4)])

section \<open>Turn requests\<close>

lemma keyMap_arrows:
  "keyMap ''ArrowUp'' = Some UP" "keyMap ''ArrowLeft'' = Some LEFT" "keyMap ''Space'' = None"
  by (simp_all add: keyMap_def)

lemma step_direction:
  "step rnd (ClickDirection d) s = Inr (runEffects s (changeDirection d s))"
  "keyMap key = Some d \<Longrightarrow> step rnd (KeyDown key) s = Inr (runEffects s (changeDirection d s))"
  by (simp_all add: step_def handleKeyDown_direction)

lemma runEffects_changeDirection:
  assumes "refsInSync s"
  shows "runEffects s (changeDirection d s) =
           (if isOppositeDirection (directionRef s) d \<or> queuedDirection s = d then s
            else s\<lparr>direction := d, queuedDirection := d, directionRef := d, queuedRef := d\<rparr>)"
  using assms by (simp add: changeDirection_def runEffects_def Let_def refsInSync_def)

lemma runEffects_changeDirection_gameState:
  "runEffects (s\<lparr>gameState := g\<rparr>) (changeDirection d (s\<lparr>gameState := g\<rparr>)) =
     (runEffects s (changeDirection d s))\<lparr>gameState := g\<rparr>"
  by (auto simp add: changeDirection_def runEffects_def Let_def)

text \<open>
  Claim C10. A key that maps to a direction and the button of that direction do the same;
  what they do does not depend on the game state (the same request in a state that differs
  only in \<open>gameState\<close> gives the same result, up to that field); and in a reachable
  state an accepted request sets the queued direction, the state \<open>direction\<close> and both
  refs, whatever the game state is.
\<close>

theorem direction_input_not_gated:
  assumes "keyMap key = Some d"
  shows "step rnd (KeyDown key) s = step rnd (ClickDirection d) s \<and>
         step rnd (ClickDirection d) (s\<lparr>gameState := g\<rparr>) =
           map_sum id (\<lambda>s'. s'\<lparr>gameState := g\<rparr>) (step rnd (ClickDirection d) s) \<and>
         (reachable rnd s \<longrightarrow>
            step rnd (ClickDirection d) s =
              Inr (if isOppositeDirection (directionRef s) d \<or> queuedDirection s = d then s
                   else s\<lparr>direction := d, queuedDirection := d, directionRef := d,
                          queuedRef := d\<rparr>))"
proof (intro conjI impI)
  show "step rnd (KeyDown key) s = step rnd (ClickDirection d) s"
    by (simp only: step_direction(1) step_direction(2) [OF assms])
  show "step rnd (ClickDirection d) (s\<lparr>gameState := g\<rparr>) =
          map_sum id (\<lambda>s'. s'\<lparr>gameState := g\<rparr>) (step rnd (ClickDirection d) s)"
    by (simp only: step_direction(1) runEffects_changeDirection_gameState map_sum.simps)
  assume "reachable rnd s"
  from runEffects_changeDirection [OF reachable_refsInSync [OF this], of d]
  show "step rnd (ClickDirection d) s =
          Inr (if isOppositeDirection (directionRef s) d \<or> queuedDirection s = d then s
               else s\<lparr>direction := d, queuedDirection := d, directionRef := d, queuedRef := d\<rparr>)"
    by (simp only: step_direction(1))
qed

theorem direction_input_not_gated_witness:
  "keyMap ''ArrowUp'' = Some UP \<and> reachable demoRnd demoMounted \<and> gameState demoMounted = idle \<and>
   step demoRnd (KeyDown ''ArrowUp'') demoMounted =
     Inr (demoMounted\<lparr>direction := UP, queuedDirection := UP, directionRef := UP, queuedRef := UP\<rparr>) \<and>
   step demoRnd (ClickDirection UP) (demoMounted\<lparr>gameState := over\<rparr>) =
     Inr (demoMounted\<lparr>direction := UP, queuedDirection := UP, directionRef := UP, queuedRef := UP,
                      gameState := over\<rparr>)"
proof -
  from direction_input_not_gated [OF keyMap_arrows(1), of demoRnd demoMounted over]
    demo_reachable(1)
  have "step demoRnd (KeyDown ''ArrowUp'') demoMounted =
          Inr (demoMounted\<lparr>direction := UP, queuedDirection := UP, directionRef := UP, queuedRef := UP\<rparr>)"
    and "step demoRnd (ClickDirection UP) (demoMounted\<lparr>gameState := over\<rparr>) =
     Inr (demoMounted\<lparr>direction := UP, queuedDirection := UP, directionRef := UP, queuedRef := UP,
                      gameState := over\<rparr>)"
    by (simp_all add: demoMounted_def isOppositeDirection_def)
  with keyMap_arrows(1) demo_reachable(1) show ?thesis by (simp add: demoMounted_def)
qed

lemma demo_turn_up: "step demoRnd (KeyDown ''ArrowUp'') demoAte = Inr demoTurnedUp"
  by (simp add: step_direction(2) [OF keyMap_arrows(1)] changeDirection_def runEffects_def Let_def
      demoAte_def demoTurnedUp_def isOppositeDirection_def)

lemma demo_turn_left: "step demoRnd (KeyDown ''ArrowLeft'') demoTurnedUp = Inr demoTurnedLeft"
  by (simp add: step_direction(2) [OF keyMap_arrows(2)] changeDirection_def runEffects_def Let_def
      demoAte_def demoTurnedUp_def demoTurnedLeft_def isOppositeDirection_def)

lemma demo_click_left: "step demoRnd (ClickDirection LEFT) demoTurnedUp = Inr demoTurnedLeft"
  by (simp add: step_direction(1) changeDirection_def runEffects_def Let_def
      demoAte_def demoTurnedUp_def demoTurnedLeft_def isOppositeDirection_def)

lemma demo_crash:
  "\<exists>s'. step demoRnd Timer demoTurnedLeft = Inr s' \<and> gameState s' = over \<and>
     snake s' = snake demoTurnedLeft"
proof -
  have a: "snake demoTurnedLeft = \<lparr>cx = 10, cy = 10\<rparr> # INITIAL_SNAKE"
    and b: "loopRef demoTurnedLeft = Some \<lparr>closureFood = \<lparr>cx = 0, cy = 0\<rparr>, delay = 154\<rparr>"
    and c: "collides (getNextHead \<lparr>cx = 10, cy = 10\<rparr> (queuedRef demoTurnedLeft)) (snake demoTurnedLeft)"
    by (simp_all add: demoTurnedLeft_def demoAte_def collides_def INITIAL_SNAKE_def)
  from step_Timer_collided [OF a b c, of demoRnd] show ?thesis by blast
qed

lemma demo_turned_reachable:
  "reachable demoRnd demoTurnedUp" "reachable demoRnd demoTurnedLeft"
proof -
  show u: "reachable demoRnd demoTurnedUp"
    by (rule reachable.stepped [OF demo_reachable(3) _ demo_turn_up]) simp
  show "reachable demoRnd demoTurnedLeft"
    by (rule reachable.stepped [OF u _ demo_turn_left]) simp
qed

text \<open>
  Claim C1 fails on the code. After a tick has committed the heading RIGHT, the request UP is
  accepted and, through the state \<open>direction\<close> and its effect, overwrites
  \<open>directionRef\<close>; the request LEFT that follows in the same tick window is compared with
  UP, not with RIGHT, and is accepted as well. The next tick moves the head onto the neck
  and ends the game.
\<close>

theorem reversal_by_two_turns:
  "reachable demoRnd demoAte \<and> directionRef demoAte = RIGHT \<and> queuedDirection demoAte = RIGHT \<and>
   isOppositeDirection RIGHT LEFT \<and>
   step demoRnd (KeyDown ''ArrowUp'') demoAte = Inr demoTurnedUp \<and>
   queuedDirection demoTurnedUp = UP \<and>
   step demoRnd (KeyDown ''ArrowLeft'') demoTurnedUp = Inr demoTurnedLeft \<and>
   step demoRnd (ClickDirection LEFT) demoTurnedUp = Inr demoTurnedLeft \<and>
   queuedDirection demoTurnedLeft = LEFT \<and>
   (\<exists>s'. step demoRnd Timer demoTurnedLeft = Inr s' \<and> gameState s' = over)"
proof -
  have "directionRef demoAte = RIGHT" "queuedDirection demoAte = RIGHT"
    "isOppositeDirection RIGHT LEFT" "queuedDirection demoTurnedUp = UP"
    "queuedDirection demoTurnedLeft = LEFT"
    by (simp_all add: demoAte_def demoTurnedUp_def demoTurnedLeft_def isOppositeDirection_def)
  with demo_reachable(3) demo_turn_up demo_turn_left demo_click_left demo_crash show ?thesis
    by blast
qed

section \<open>Eating the last free cell\<close>

lemma next_rank:
  assumes "onBoard c" and "rankOf c < 399"
  shows "rankOf (getNextHead c (nextDir c)) = rankOf c + 1 \<and> onBoard (getNextHead c (nextDir c))"
proof (cases c)
  case (fields x y)
  with assms show ?thesis
    by (auto simp add: onBoard_def rankOf_def nextDir_def BOARD_SIZE_def split: if_splits)
qed

lemma rank_cellAt: "i \<le> 399 \<Longrightarrow> rankOf (cellAt i) = int i \<and> onBoard (cellAt i)"
proof (induction i)
  case 0
  show ?case by (simp add: rankOf_def onBoard_def BOARD_SIZE_def)
next
  case (Suc i)
  then have "rankOf (cellAt i) = int i" "onBoard (cellAt i)" "rankOf (cellAt i) < 399" by simp_all
  with next_rank [of "cellAt i"] show ?case by (simp add: cellAt.simps(2))
qed

lemma cellAt_inj:
  assumes "i \<le> 399" and "j \<le> 399" and "cellAt i = cellAt j"
  shows "i = j"
proof -
  from assms(3) have "rankOf (cellAt i) = rankOf (cellAt j)" by (rule arg_cong)
  with rank_cellAt [OF assms(1)] rank_cellAt [OF assms(2)] have "int i = int j" by (simp only:)
  then show ?thesis by simp
qed

lemma cellAt_fresh:
  assumes "i \<le> 399"
  shows "cellAt i \<notin> set (map cellAt (rev [0..<i]))"
proof
  assume "cellAt i \<in> set (map cellAt (rev [0..<i]))"
  then obtain j where "j < i" "cellAt i = cellAt j" by auto
  with assms cellAt_inj [of i j] show False by linarith
qed

lemma opposite_back:
  "isOppositeDirection d d' \<Longrightarrow> getNextHead (getNextHead c d) d' = c"
  by (cases d; cases d') (simp_all add: isOppositeDirection_def)

lemma no_reversal:
  assumes "Suc (Suc i) \<le> 399"
  shows "\<not> isOppositeDirection (nextDir (cellAt i)) (nextDir (cellAt (Suc i)))"
proof
  assume "isOppositeDirection (nextDir (cellAt i)) (nextDir (cellAt (Suc i)))"
  from opposite_back [OF this, of "cellAt i"] have "cellAt (Suc (Suc i)) = cellAt i"
    by (simp add: cellAt.simps(2))
  from cellAt_inj [OF assms _ this] assms show False by linarith
qed

lemma length_allCells: "length allCells = 400"
  by (simp add: allCells_def BOARD_SIZE_def length_concat comp_def sum_list_triv)

lemma onBoard_allCells: "onBoard c \<longleftrightarrow> c \<in> set allCells"
  by (simp add: onBoard_def set_allCells)

lemma cells_cover: "set allCells \<subseteq> set (map cellAt (rev [0..<400]))"
proof -
  have inj: "inj_on cellAt {0..<400}"
  proof (rule inj_onI)
    fix i j :: nat
    assume "i \<in> {0..<400}" and "j \<in> {0..<400}" and e: "cellAt i = cellAt j"
    then have "i \<le> 399" "j \<le> 399" by simp_all
    then show "i = j" using e by (rule cellAt_inj)
  qed
  have sub: "cellAt ` {0..<400} \<subseteq> set allCells"
    using rank_cellAt by (auto simp add: onBoard_allCells [symmetric])
  have "card (set allCells) \<le> 400" using card_length [of allCells] by (simp add: length_allCells)
  also have "400 = card (cellAt ` {0..<400})" using card_image [OF inj] by simp
  finally have "cellAt ` {0..<400} = set allCells" by (intro card_seteq sub) simp_all
  then show ?thesis by simp
qed

lemma cellAt_start:
  "cellAt (Suc 0) = \<lparr>cx = 8, cy = 10\<rparr>" "cellAt (Suc (Suc 0)) = \<lparr>cx = 9, cy = 10\<rparr>"
  "cellAt (Suc (Suc (Suc 0))) = \<lparr>cx = 10, cy = 10\<rparr>"
  by (simp_all add: cellAt.simps(2) nextDir_def)

lemma Coordinate_eta: "\<lparr>cx = cx c, cy = cy c\<rparr> = (c :: Coordinate)"
  by (cases c) simp

lemma ham_drawn: "0 < m \<Longrightarrow> m + 2 \<le> 399 \<Longrightarrow> drawn hamRnd (2 * m) = cellAt (m + 2)"
  by (simp add: drawn_def hamRnd_def Coordinate_eta)

lemma ham_mount:
  "mount hamRnd None =
     Inr \<lparr>snake = INITIAL_SNAKE, food = \<lparr>cx = 3, cy = 3\<rparr>,
          direction = RIGHT, queuedDirection = RIGHT, gameState = idle, score = 0, highScore = 0,
          speedLevel = 0, loopRef = None, directionRef = RIGHT, queuedRef = RIGHT,
          gameStateRef = idle, scoreRef = 0, localStorage = None, randomCalls = 2\<rparr>"
proof -
  have "drawn hamRnd 0 = \<lparr>cx = 3, cy = 3\<rparr>" by (simp add: drawn_def hamRnd_def)
  then show ?thesis
    by (simp add: mount_def randomFoodPosition_unfold [of hamRnd _ 0] INITIAL_SNAKE_def
        updateHighScore_def)
qed

lemma ham_start:
  "step hamRnd ClickToggle
     \<lparr>snake = INITIAL_SNAKE, food = \<lparr>cx = 3, cy = 3\<rparr>,
      direction = RIGHT, queuedDirection = RIGHT, gameState = idle, score = 0, highScore = 0,
      speedLevel = 0, loopRef = None, directionRef = RIGHT, queuedRef = RIGHT,
      gameStateRef = idle, scoreRef = 0, localStorage = None, randomCalls = 2\<rparr> =
   Inr (hamState 0)"
proof -
  have "drawn hamRnd 2 = \<lparr>cx = 10, cy = 10\<rparr>"
    using ham_drawn [of 1] by (simp add: cellAt_start numeral_3_eq_3)
  then show ?thesis
    by (simp add: step_def togglePause_def resetGame_def hamState_def
        randomFoodPosition_unfold [of hamRnd _ 2] INITIAL_SNAKE_def cellAt_start nextDir_def
        runEffects_def startLoop_def stopLoop_def tickRate_def TICK_BASE_def SPEED_STEP_def)
qed

lemma hamState_sync: "refsInSync (hamState j)"
  by (simp add: refsInSync_def hamState_def)

lemma ham_turn:
  assumes "j \<le> 396"
  shows "step hamRnd (ClickDirection (nextDir (cellAt (Suc (Suc j))))) (hamState j) =
           Inr (hamTurned j)"
proof -
  from assms have "Suc (Suc (Suc j)) \<le> 399" by simp
  from no_reversal [OF this]
  have "\<not> isOppositeDirection (directionRef (hamState j)) (nextDir (cellAt (Suc (Suc j))))"
    by (simp add: hamState_def)
  then show ?thesis
    unfolding step_direction(1) runEffects_changeDirection [OF hamState_sync]
    by (simp add: hamTurned_def) (simp add: hamState_def)
qed

lemma ham_food:
  assumes "j \<le> 395"
  shows "randomFoodPosition hamRnd (map cellAt (rev [0..<Suc (Suc (Suc (Suc j)))])) (4 + 2 * j) =
           Some (cellAt (Suc (Suc (Suc (Suc j)))), 6 + 2 * j)"
proof -
  have "4 + 2 * j = 2 * (j + 2)" by simp
  with ham_drawn [of "j + 2"] assms
  have d: "drawn hamRnd (4 + 2 * j) = cellAt (Suc (Suc (Suc (Suc j))))"
    by (simp add: numeral_eq_Suc)
  from assms have "Suc (Suc (Suc (Suc j))) \<le> 399" by simp
  from cellAt_fresh [OF this]
  have "drawn hamRnd (4 + 2 * j) \<notin> set (map cellAt (rev [0..<Suc (Suc (Suc (Suc j)))]))"
    unfolding d .
  then show ?thesis
    by (subst randomFoodPosition_unfold) (simp only: d if_False, simp)
qed

lemma level_Suc: "min (min (int j) 12 + 1) 12 = min (int (Suc j)) 12"
  by simp

lemma ham_eat:
  assumes "j \<le> 395"
  shows "step hamRnd Timer (hamTurned j) = Inr (hamState (Suc j))"
proof -
  let ?nh = "cellAt (Suc (Suc (Suc j)))"
  have sn: "snake (hamTurned j) = cellAt (Suc (Suc j)) # map cellAt (rev [0..<Suc (Suc j)])"
    by (simp add: hamTurned_def hamState_def)
  have nh: "getNextHead (cellAt (Suc (Suc j))) (queuedRef (hamTurned j)) = ?nh"
    by (simp add: hamTurned_def cellAt.simps(2))
  from assms have le: "Suc (Suc (Suc j)) \<le> 399" by simp
  from rank_cellAt [OF le] cellAt_fresh [OF le]
  have nc: "\<not> collides (getNextHead (cellAt (Suc (Suc j))) (queuedRef (hamTurned j)))
              (snake (hamTurned j))"
    unfolding nh by (simp add: collides_def onBoard_def hamTurned_def hamState_def)
  have cf: "getNextHead (cellAt (Suc (Suc j))) (queuedRef (hamTurned j)) =
              closureFood \<lparr>closureFood = ?nh, delay = tickRate (min (int j) 12)\<rparr>"
    unfolding nh by simp
  have lr: "loopRef (hamTurned j) = Some \<lparr>closureFood = ?nh, delay = tickRate (min (int j) 12)\<rparr>"
    by (simp add: hamTurned_def hamState_def)
  from assms have "Suc (Suc (Suc (Suc j))) \<le> 399" by simp
  from cellAt_inj [OF this le] have "cellAt (Suc (Suc (Suc (Suc j)))) \<noteq> ?nh" by auto
  then have ne: "cx (cellAt (Suc (Suc (Suc (Suc j))))) = cx ?nh \<longrightarrow>
      cy (cellAt (Suc (Suc (Suc (Suc j))))) \<noteq> cy ?nh"
    unfolding Coordinate_fields_eq [symmetric] by blast
  have f: "randomFoodPosition hamRnd (?nh # snake (hamTurned j)) (randomCalls (hamTurned j)) =
             Some (cellAt (Suc (Suc (Suc (Suc j)))), 6 + 2 * j)"
    using ham_food [OF assms] by (simp add: hamTurned_def hamState_def)
  show ?thesis
    unfolding step_def handler.simps lr option.case intervalCallback_ate [OF sn nc cf]
    unfolding nh f
    using ne
    by (simp add: runEffects_def Let_def startLoop_def stopLoop_def updateHighScore_def
        hamTurned_def hamState_def level_Suc)
qed

lemma hamTurned_reachable:
  assumes "reachable hamRnd (hamState j)" and "j \<le> 396"
  shows "reachable hamRnd (hamTurned j)"
  by (rule reachable.stepped [OF assms(1) _ ham_turn [OF assms(2)]]) simp

lemma ham_reachable: "j \<le> 396 \<Longrightarrow> reachable hamRnd (hamState j)"
proof (induction j)
  case 0
  have "reachable hamRnd
     \<lparr>snake = INITIAL_SNAKE, food = \<lparr>cx = 3, cy = 3\<rparr>,
      direction = RIGHT, queuedDirection = RIGHT, gameState = idle, score = 0, highScore = 0,
      speedLevel = 0, loopRef = None, directionRef = RIGHT, queuedRef = RIGHT,
      gameStateRef = idle, scoreRef = 0, localStorage = None, randomCalls = 2\<rparr>"
    by (rule reachable.mounted [OF ham_mount])
  then show ?case by (rule reachable.stepped [OF _ _ ham_start]) simp
next
  case (Suc j)
  then have j: "j \<le> 395" and r: "reachable hamRnd (hamState j)" by simp_all
  from j have "j \<le> 396" by simp
  from hamTurned_reachable [OF r this] show ?case
    by (rule reachable.stepped [OF _ _ ham_eat [OF j]]) (simp add: hamTurned_def hamState_def)
qed

lemma cellAt_of_rank:
  assumes "onBoard c" and "rankOf c = int i" and "i \<le> 399"
  shows "cellAt i = c"
proof -
  from assms(1) cells_cover obtain j where j: "j < 400" "c = cellAt j"
    by (auto simp add: onBoard_allCells)
  then have "j \<le> 399" by simp
  from rank_cellAt [OF this] assms(2) j(2) have "j = i" by simp
  with j(2) show ?thesis by simp
qed

lemma cellAt_end:
  "cellAt 397 = \<lparr>cx = 19, cy = 7\<rparr>" "cellAt 398 = \<lparr>cx = 19, cy = 8\<rparr>"
  "cellAt 399 = \<lparr>cx = 19, cy = 9\<rparr>"
  by (rule cellAt_of_rank; simp add: onBoard_def rankOf_def BOARD_SIZE_def)+

lemma inRange_hamRnd: "inRange hamRnd"
proof -
  have "0 \<le> hamRnd k \<and> hamRnd k < BOARD_SIZE" for k
    using rank_cellAt [of "min (k div 2 + 2) 399"]
    by (simp add: hamRnd_def onBoard_def BOARD_SIZE_def)
  then show ?thesis by (simp add: inRange_def)
qed

lemma step_Timer_diverges:
  assumes "snake s = head # rest" and "loopRef s = Some t"
    and "\<not> collides (getNextHead head (queuedRef s)) (snake s)"
    and "getNextHead head (queuedRef s) = closureFood t"
    and "\<forall>k. drawn rnd (randomCalls s + 2 * k) \<in> set (getNextHead head (queuedRef s) # snake s)"
  shows "step rnd Timer s = Inl Diverges"
  by (simp add: step_def assms(2) intervalCallback_ate [OF assms(1,3,4)]
      randomFoodPosition_None [OF assms(5)])

lemma cells_Suc: "map cellAt (rev [0..<Suc n]) = cellAt n # map cellAt (rev [0..<n])"
  by simp

lemma hamState_last:
  "snake (hamState 396) = \<lparr>cx = 19, cy = 8\<rparr> # map cellAt (rev [0..<398])"
  "loopRef (hamState 396) = Some \<lparr>closureFood = \<lparr>cx = 19, cy = 9\<rparr>, delay = tickRate 12\<rparr>"
  "queuedRef (hamState 396) = DOWN"
  "food (hamState 396) = \<lparr>cx = 19, cy = 9\<rparr>"
  "length (snake (hamState 396)) = 399"
  "gameState (hamState 396) = running"
  using cells_Suc [of 398] by (simp_all add: hamState_def cellAt_end nextDir_def)

lemma hamState_last_free:
  "\<not> collides \<lparr>cx = 19, cy = 9\<rparr> (snake (hamState 396))"
proof -
  from cellAt_fresh [of 399]
  have "\<lparr>cx = 19, cy = 9\<rparr> \<notin> set (snake (hamState 396))"
    by (simp add: hamState_def cellAt_end)
  then show ?thesis by (simp add: collides_def BOARD_SIZE_def)
qed

lemma hamState_last_full:
  assumes "inRange rnd"
  shows "\<forall>k. drawn rnd (n + 2 * k) \<in> set (\<lparr>cx = 19, cy = 9\<rparr> # snake (hamState 396))"
proof -
  have "\<lparr>cx = 19, cy = 9\<rparr> # snake (hamState 396) = map cellAt (rev [0..<400])"
    using cells_Suc [of 399] by (simp add: hamState_def cellAt_end)
  with cells_cover drawn_on_board [OF assms] show ?thesis by auto
qed

text \<open>
  Claim C6 as stated fails: after 396 foods along the walk the snake has 399 cells and the
  food is the last free cell, one step ahead of the head; the tick that eats it never
  returns, so nothing grows and nothing is scored.
\<close>

theorem eating_on_full_board_counterexample:
  "reachable hamRnd (hamState 396) \<and> gameState (hamState 396) = running \<and>
   length (snake (hamState 396)) = 399 \<and>
   snake (hamState 396) = \<lparr>cx = 19, cy = 8\<rparr> # map cellAt (rev [0..<398]) \<and>
   getNextHead \<lparr>cx = 19, cy = 8\<rparr> (queuedRef (hamState 396)) = food (hamState 396) \<and>
   \<not> collides (getNextHead \<lparr>cx = 19, cy = 8\<rparr> (queuedRef (hamState 396))) (snake (hamState 396)) \<and>
   inRange hamRnd \<and>
   step hamRnd Timer (hamState 396) = Inl Diverges"
proof -
  have nh: "getNextHead \<lparr>cx = 19, cy = 8\<rparr> (queuedRef (hamState 396)) = \<lparr>cx = 19, cy = 9\<rparr>"
    by (simp add: hamState_last)
  have a: "\<not> collides (getNextHead \<lparr>cx = 19, cy = 8\<rparr> (queuedRef (hamState 396)))
             (snake (hamState 396))"
    unfolding nh by (rule hamState_last_free)
  have b: "getNextHead \<lparr>cx = 19, cy = 8\<rparr> (queuedRef (hamState 396)) =
             closureFood \<lparr>closureFood = \<lparr>cx = 19, cy = 9\<rparr>, delay = tickRate 12\<rparr>"
    unfolding nh by simp
  have c: "\<forall>k. drawn hamRnd (randomCalls (hamState 396) + 2 * k)
             \<in> set (getNextHead \<lparr>cx = 19, cy = 8\<rparr> (queuedRef (hamState 396)) # snake (hamState 396))"
    unfolding nh by (rule hamState_last_full [OF inRange_hamRnd])
  have "step hamRnd Timer (hamState 396) = Inl Diverges"
    by (rule step_Timer_diverges [OF hamState_last(1,2) a b c])
  with ham_reachable [of 396] hamState_last(1,5,6) a inRange_hamRnd nh hamState_last(4)
  show ?thesis by simp
qed

text \<open>
  Claim C6, amended. In a reachable state with the interval running, a tick whose next head
  does not collide and is the food cell returns exactly when some later draw is a cell off
  the grown snake. When it returns, the new head is put in front of the whole snake, so the
  length grows by exactly 1, the score by exactly 10, and the speed level by exactly 1
  unless it is 12, where it stays. When no later draw is off the grown snake (so when the
  grown snake fills the board) the tick never returns and nothing is updated. A tick whose
  next head does not collide and is not the food cell leaves the length as it is.
\<close>

theorem eating_grows_by_one:
  assumes "reachable rnd s" and "loopRef s = Some t" and "snake s = head # rest"
    and "\<not> collides (getNextHead head (queuedRef s)) (snake s)"
  shows "(getNextHead head (queuedRef s) = food s \<and>
          (\<exists>k. drawn rnd (randomCalls s + 2 * k) \<notin> set (getNextHead head (queuedRef s) # snake s)) \<longrightarrow>
            (\<exists>s'. step rnd Timer s = Inr s' \<and>
                  snake s' = getNextHead head (queuedRef s) # snake s \<and>
                  length (snake s') = length (snake s) + 1 \<and>
                  score s' = score s + 10 \<and>
                  speedLevel s' = (if speedLevel s = 12 then 12 else speedLevel s + 1))) \<and>
         (getNextHead head (queuedRef s) = food s \<and>
          (\<forall>k. drawn rnd (randomCalls s + 2 * k) \<in> set (getNextHead head (queuedRef s) # snake s)) \<longrightarrow>
            step rnd Timer s = Inl Diverges) \<and>
         (getNextHead head (queuedRef s) \<noteq> food s \<longrightarrow>
            (\<exists>s'. step rnd Timer s = Inr s' \<and> length (snake s') = length (snake s) \<and>
                  score s' = score s \<and> speedLevel s' = speedLevel s))"
proof -
  from reachable_wellFormed [OF assms(1)] assms(2)
  have cf: "closureFood t = food s" and lv: "speedLevel s \<le> 12"
    by (simp_all add: wellFormed_def)
  let ?nh = "getNextHead head (queuedRef s)"
  have "\<exists>s'. step rnd Timer s = Inr s' \<and> snake s' = ?nh # snake s \<and>
          length (snake s') = length (snake s) + 1 \<and> score s' = score s + 10 \<and>
          speedLevel s' = (if speedLevel s = 12 then 12 else speedLevel s + 1)"
    if eat: "?nh = food s" and free: "\<exists>k. drawn rnd (randomCalls s + 2 * k) \<notin> set (?nh # snake s)"
  proof -
    from free obtain k where "drawn rnd (randomCalls s + 2 * k) \<notin> set (?nh # snake s)" ..
    from randomFoodPosition_returns [OF this] obtain newFood n where
      r: "randomFoodPosition rnd (?nh # snake s) (randomCalls s) = Some (newFood, n)" by blast
    from eat cf have "?nh = closureFood t" by simp
    from step_Timer_ate [OF assms(3,2,4) this r] obtain s' where
      "step rnd Timer s = Inr s'" "snake s' = ?nh # snake s" "score s' = score s + 10"
      "speedLevel s' = min (speedLevel s + 1) 12" by blast
    with lv show ?thesis by (intro exI [of _ s']) auto
  qed
  moreover have "step rnd Timer s = Inl Diverges"
    if eat: "?nh = food s" and full: "\<forall>k. drawn rnd (randomCalls s + 2 * k) \<in> set (?nh # snake s)"
  proof -
    from eat cf have "?nh = closureFood t" by simp
    from step_Timer_diverges [OF assms(3,2,4) this full] show ?thesis .
  qed
  moreover have "\<exists>s'. step rnd Timer s = Inr s' \<and> length (snake s') = length (snake s) \<and>
          score s' = score s \<and> speedLevel s' = speedLevel s" if "?nh \<noteq> food s"
  proof -
    from that cf have "?nh \<noteq> closureFood t" by simp
    from step_Timer_moved [OF assms(3,2,4) this, of rnd] obtain s' where
      "step rnd Timer s = Inr s'" "snake s' = ?nh # butlast (snake s)"
      "score s' = score s" "speedLevel s' = speedLevel s" by blast
    with assms(3) show ?thesis by (intro exI [of _ s']) simp
  qed
  ultimately show ?thesis by blast
qed

theorem eating_grows_by_one_witness:
  "reachable demoRnd demoStarted \<and>
   loopRef demoStarted = Some \<lparr>closureFood = \<lparr>cx = 10, cy = 10\<rparr>, delay = 160\<rparr> \<and>
   snake demoStarted = \<lparr>cx = 9, cy = 10\<rparr> # [\<lparr>cx = 8, cy = 10\<rparr>, \<lparr>cx = 7, cy = 10\<rparr>] \<and>
   \<not> collides (getNextHead \<lparr>cx = 9, cy = 10\<rparr> (queuedRef demoStarted)) (snake demoStarted) \<and>
   getNextHead \<lparr>cx = 9, cy = 10\<rparr> (queuedRef demoStarted) = food demoStarted \<and>
   drawn demoRnd (randomCalls demoStarted + 2 * 0)
     \<notin> set (getNextHead \<lparr>cx = 9, cy = 10\<rparr> (queuedRef demoStarted) # snake demoStarted) \<and>
   (\<exists>s'. step demoRnd Timer demoStarted = Inr s' \<and> length (snake s') = 4 \<and> score s' = 10 \<and>
         speedLevel s' = 1) \<and>
   reachable demoRnd demoAte \<and>
   getNextHead \<lparr>cx = 10, cy = 10\<rparr> (queuedRef demoAte) \<noteq> food demoAte \<and>
   (\<exists>s'. step demoRnd Timer demoAte = Inr s' \<and> length (snake s') = 4 \<and> score s' = 10 \<and>
         speedLevel s' = 1) \<and>
   reachable hamRnd (hamState 396) \<and>
   getNextHead \<lparr>cx = 19, cy = 8\<rparr> (queuedRef (hamState 396)) = food (hamState 396) \<and>
   (\<forall>k. drawn hamRnd (randomCalls (hamState 396) + 2 * k)
      \<in> set (getNextHead \<lparr>cx = 19, cy = 8\<rparr> (queuedRef (hamState 396)) # snake (hamState 396))) \<and>
   step hamRnd Timer (hamState 396) = Inl Diverges"
proof -
  have nh: "getNextHead \<lparr>cx = 19, cy = 8\<rparr> (queuedRef (hamState 396)) = \<lparr>cx = 19, cy = 9\<rparr>"
    by (simp add: hamState_last)
  have c'': "\<not> collides (getNextHead \<lparr>cx = 19, cy = 8\<rparr> (queuedRef (hamState 396)))
               (snake (hamState 396))"
    unfolding nh by (rule hamState_last_free)
  have d'': "getNextHead \<lparr>cx = 19, cy = 8\<rparr> (queuedRef (hamState 396)) = food (hamState 396)"
    unfolding nh by (simp add: hamState_last)
  have e'': "\<forall>k. drawn hamRnd (randomCalls (hamState 396) + 2 * k)
      \<in> set (getNextHead \<lparr>cx = 19, cy = 8\<rparr> (queuedRef (hamState 396)) # snake (hamState 396))"
    unfolding nh by (rule hamState_last_full [OF inRange_hamRnd])
  have r'': "reachable hamRnd (hamState 396)" by (rule ham_reachable) simp
  from eating_grows_by_one [OF r'' hamState_last(2,1) c''] d'' e''
  have full: "step hamRnd Timer (hamState 396) = Inl Diverges" by blast
  have a': "loopRef demoAte = Some \<lparr>closureFood = \<lparr>cx = 0, cy = 0\<rparr>, delay = 154\<rparr>"
    and b': "snake demoAte = \<lparr>cx = 10, cy = 10\<rparr> # INITIAL_SNAKE"
    and c': "\<not> collides (getNextHead \<lparr>cx = 10, cy = 10\<rparr> (queuedRef demoAte)) (snake demoAte)"
    and d': "getNextHead \<lparr>cx = 10, cy = 10\<rparr> (queuedRef demoAte) \<noteq> food demoAte"
    by (simp_all add: demoAte_def INITIAL_SNAKE_def collides_def BOARD_SIZE_def)
  from eating_grows_by_one [OF demo_reachable(3) a' b' c'] d'
  obtain s'' where "step demoRnd Timer demoAte = Inr s''"
    "length (snake s'') = length (snake demoAte)" "score s'' = score demoAte"
    "speedLevel s'' = speedLevel demoAte"
    by blast
  then have moved: "\<exists>s'. step demoRnd Timer demoAte = Inr s' \<and> length (snake s') = 4 \<and>
      score s' = 10 \<and> speedLevel s' = 1"
    by (intro exI [of _ s'']) (simp add: demoAte_def INITIAL_SNAKE_def)
  have a: "loopRef demoStarted = Some \<lparr>closureFood = \<lparr>cx = 10, cy = 10\<rparr>, delay = 160\<rparr>"
    and b: "snake demoStarted = \<lparr>cx = 9, cy = 10\<rparr> # [\<lparr>cx = 8, cy = 10\<rparr>, \<lparr>cx = 7, cy = 10\<rparr>]"
    and c: "\<not> collides (getNextHead \<lparr>cx = 9, cy = 10\<rparr> (queuedRef demoStarted)) (snake demoStarted)"
    and d: "getNextHead \<lparr>cx = 9, cy = 10\<rparr> (queuedRef demoStarted) = food demoStarted"
    and e: "drawn demoRnd (randomCalls demoStarted + 2 * 0)
              \<notin> set (getNextHead \<lparr>cx = 9, cy = 10\<rparr> (queuedRef demoStarted) # snake demoStarted)"
    by (simp_all add: demoStarted_def INITIAL_SNAKE_def collides_def BOARD_SIZE_def demoRnd_draws)
  from e have "\<exists>k. drawn demoRnd (randomCalls demoStarted + 2 * k)
              \<notin> set (getNextHead \<lparr>cx = 9, cy = 10\<rparr> (queuedRef demoStarted) # snake demoStarted)"
    by (rule exI)
  with eating_grows_by_one [OF demo_reachable(2) a b c] d
  obtain s' where "step demoRnd Timer demoStarted = Inr s'"
    "length (snake s') = length (snake demoStarted) + 1" "score s' = score demoStarted + 10"
    "speedLevel s' = (if speedLevel demoStarted = 12 then 12 else speedLevel demoStarted + 1)"
    by blast
  then have "\<exists>s'. step demoRnd Timer demoStarted = Inr s' \<and> length (snake s') = 4 \<and>
      score s' = 10 \<and> speedLevel s' = 1"
    by (intro exI [of _ s']) (simp add: demoStarted_def INITIAL_SNAKE_def)
  with demo_reachable(2,3) a b c d e d' moved r'' d'' e'' full show ?thesis by blast
qed

section \<open>Pause and resume\<close>

lemma demo_pause: "step demoRnd ClickToggle demoAte = Inr demoPaused"
  by (simp add: step_def togglePause_def demoAte_def demoPaused_def runEffects_def Let_def stopLoop_def)

lemma demo_resume:
  "step demoRnd ClickToggle demoPaused = Inr demoAte"
  "step demoRnd (KeyDown ''Space'') demoPaused = Inr demoAte"
  by (simp_all add: step_def togglePause_def handleKeyDown_def keyMap_arrows demoAte_def demoPaused_def
      runEffects_def Let_def startLoop_def stopLoop_def tickRate_def TICK_BASE_def SPEED_STEP_def)

lemma demo_paused_reachable: "reachable demoRnd demoPaused"
  by (rule reachable.stepped [OF demo_reachable(3) _ demo_pause]) simp

text \<open>
  Claim C3 as stated fails: in the paused game below, the start/pause button and the space
  key resume; the snake, the score and the speed level are not reset.
\<close>

theorem start_while_paused_counterexample:
  "reachable demoRnd demoPaused \<and> gameState demoPaused = paused \<and>
   step demoRnd ClickToggle demoPaused = Inr demoAte \<and>
   step demoRnd (KeyDown ''Space'') demoPaused = Inr demoAte \<and>
   gameState demoAte = running \<and> snake demoAte \<noteq> INITIAL_SNAKE \<and> score demoAte \<noteq> 0 \<and>
   speedLevel demoAte \<noteq> 0"
proof -
  have "gameState demoPaused = paused" "gameState demoAte = running"
    "snake demoAte \<noteq> INITIAL_SNAKE" "score demoAte \<noteq> 0" "speedLevel demoAte \<noteq> 0"
    by (simp_all add: demoPaused_def demoAte_def)
  with demo_paused_reachable demo_resume show ?thesis by blast
qed

text \<open>
  Claim C3, amended. The start/pause button or the space key in the state \<open>paused\<close>
  resumes: the game state becomes \<open>running\<close>, a new interval is started at the tick rate
  of the current speed level, and the snake, the food, the score, the speed level, the
  directions and the high score are as they were.
\<close>

theorem start_while_paused_resumes:
  assumes "gameState s = paused" and "e = ClickToggle \<or> e = KeyDown ''Space''"
  shows "\<exists>s'. step rnd e s = Inr s' \<and> gameState s' = running \<and> snake s' = snake s \<and>
           food s' = food s \<and> score s' = score s \<and> speedLevel s' = speedLevel s \<and>
           direction s' = direction s \<and> queuedDirection s' = queuedDirection s \<and>
           directionRef s' = directionRef s \<and> queuedRef s' = queuedRef s \<and>
           highScore s' = highScore s \<and> randomCalls s' = randomCalls s \<and>
           loopRef s' = Some \<lparr>closureFood = food s, delay = tickRate (speedLevel s)\<rparr>"
proof -
  from assms have "handler rnd e s = Inr (s\<lparr>gameState := running\<rparr>)"
    by (auto simp add: togglePause_def handleKeyDown_def keyMap_arrows)
  with assms(1) show ?thesis
    by (simp add: step_def runEffects_loopRef runEffects_refs)
qed

theorem start_while_paused_resumes_witness:
  "gameState demoPaused = paused \<and>
   (\<exists>s'. step demoRnd ClickToggle demoPaused = Inr s' \<and> gameState s' = running \<and>
         score s' = 10 \<and> speedLevel s' = 1 \<and> length (snake s') = 4)"
proof -
  have p: "gameState demoPaused = paused" by (simp add: demoPaused_def)
  from start_while_paused_resumes [OF p, of ClickToggle demoRnd] p show ?thesis
    by (auto simp add: demoPaused_def demoAte_def INITIAL_SNAKE_def)
qed

section \<open>Food placement on a full board\<close>

text \<open>
  Claim C2 as stated fails: when the forbidden cells are the whole board (and every draw
  is 0), the loop never returns; there is no other result.
\<close>

theorem randomFoodPosition_full_board_counterexample:
  "randomFoodPosition (rndOf []) allCells 0 = None"
proof -
  have "drawn (rndOf []) (0 + 2 * k) \<in> set allCells" for k
    by (simp add: drawn_def rndOf_def set_allCells BOARD_SIZE_def)
  then show ?thesis by (intro randomFoodPosition_None) blast
qed

text \<open>
  Claim C2, amended. \<open>randomFoodPosition\<close> returns exactly when one of the cells it
  draws is not forbidden; the cell it returns is the first of its draws that is not
  forbidden (every draw before it is forbidden), and the count of calls has advanced past it.
  When the forbidden cells cover the whole board (and every draw is on the board) it never
  returns.
\<close>

theorem randomFoodPosition_returns_iff:
  "((\<exists>c m. randomFoodPosition rnd forbidden n = Some (c, m)) \<longleftrightarrow>
      (\<exists>k. drawn rnd (n + 2 * k) \<notin> set forbidden)) \<and>
   (randomFoodPosition rnd forbidden n = Some (c, m) \<longrightarrow>
      c \<notin> set forbidden \<and>
      (\<exists>k. c = drawn rnd (n + 2 * k) \<and> m = n + 2 * k + 2 \<and>
           (\<forall>j<k. drawn rnd (n + 2 * j) \<in> set forbidden))) \<and>
   (inRange rnd \<and> set allCells \<subseteq> set forbidden \<longrightarrow> randomFoodPosition rnd forbidden n = None)"
proof (intro conjI impI)
  show "(\<exists>c m. randomFoodPosition rnd forbidden n = Some (c, m)) \<longleftrightarrow>
      (\<exists>k. drawn rnd (n + 2 * k) \<notin> set forbidden)"
  proof
    assume "\<exists>c m. randomFoodPosition rnd forbidden n = Some (c, m)"
    then obtain c m where r: "randomFoodPosition rnd forbidden n = Some (c, m)" by blast
    from randomFoodPosition_Some [OF r] show "\<exists>k. drawn rnd (n + 2 * k) \<notin> set forbidden"
      by blast
  next
    assume "\<exists>k. drawn rnd (n + 2 * k) \<notin> set forbidden"
    then obtain k where "drawn rnd (n + 2 * k) \<notin> set forbidden" ..
    then show "\<exists>c m. randomFoodPosition rnd forbidden n = Some (c, m)"
      by (rule randomFoodPosition_returns)
  qed
next
  assume r: "randomFoodPosition rnd forbidden n = Some (c, m)"
  from randomFoodPosition_Some [OF r] show "c \<notin> set forbidden" by blast
  from randomFoodPosition_first_free [OF r]
  show "\<exists>k. c = drawn rnd (n + 2 * k) \<and> m = n + 2 * k + 2 \<and>
          (\<forall>j<k. drawn rnd (n + 2 * j) \<in> set forbidden)"
    by blast
next
  assume "inRange rnd \<and> set allCells \<subseteq> set forbidden"
  then have "\<forall>k. drawn rnd (n + 2 * k) \<in> set forbidden"
    using drawn_on_board [of rnd] by blast
  then show "randomFoodPosition rnd forbidden n = None" by (rule randomFoodPosition_None)
qed

lemma inRange_rndOf:
  assumes "list_all (\<lambda>v. 0 \<le> v \<and> v < BOARD_SIZE) xs"
  shows "inRange (rndOf xs)"
proof -
  have "0 \<le> rndOf xs k \<and> rndOf xs k < BOARD_SIZE" for k
  proof (cases "k < length xs")
    case True
    then have "xs ! k \<in> set xs" by (rule nth_mem)
    with assms True show ?thesis by (simp add: rndOf_def list_all_iff)
  next
    case False
    then show ?thesis by (simp add: rndOf_def BOARD_SIZE_def)
  qed
  then show ?thesis by (simp add: inRange_def)
qed

theorem randomFoodPosition_returns_iff_witness:
  "randomFoodPosition demoRnd INITIAL_SNAKE 0 = Some (\<lparr>cx = 3, cy = 3\<rparr>, 2) \<and>
   \<lparr>cx = 3, cy = 3\<rparr> \<notin> set INITIAL_SNAKE \<and>
   randomFoodPosition (rndOf [9, 10, 8, 10, 3, 3]) INITIAL_SNAKE 0 = Some (\<lparr>cx = 3, cy = 3\<rparr>, 6) \<and>
   (\<exists>k. \<lparr>cx = 3, cy = 3\<rparr> = drawn (rndOf [9, 10, 8, 10, 3, 3]) (0 + 2 * k) \<and>
        (6 :: nat) = 0 + 2 * k + 2 \<and>
        (\<forall>j<k. drawn (rndOf [9, 10, 8, 10, 3, 3]) (0 + 2 * j) \<in> set INITIAL_SNAKE)) \<and>
   inRange demoRnd \<and> set allCells \<subseteq> set allCells \<and>
   randomFoodPosition demoRnd allCells 0 = None"
proof -
  have a': "randomFoodPosition (rndOf [9, 10, 8, 10, 3, 3]) INITIAL_SNAKE 0 =
      Some (\<lparr>cx = 3, cy = 3\<rparr>, 6)"
    by (simp add: randomFoodPosition_unfold drawn_def rndOf_def INITIAL_SNAKE_def)
  from randomFoodPosition_returns_iff
    [of "rndOf [9, 10, 8, 10, 3, 3]" INITIAL_SNAKE 0 "\<lparr>cx = 3, cy = 3\<rparr>" 6] a'
  have e: "\<exists>k. \<lparr>cx = 3, cy = 3\<rparr> = drawn (rndOf [9, 10, 8, 10, 3, 3]) (0 + 2 * k) \<and>
        (6 :: nat) = 0 + 2 * k + 2 \<and>
        (\<forall>j<k. drawn (rndOf [9, 10, 8, 10, 3, 3]) (0 + 2 * j) \<in> set INITIAL_SNAKE)"
    by blast
  have a: "randomFoodPosition demoRnd INITIAL_SNAKE 0 = Some (\<lparr>cx = 3, cy = 3\<rparr>, 2)"
    by (simp add: randomFoodPosition_unfold [of demoRnd _ 0] demoRnd_draws INITIAL_SNAKE_def)
  have b: "inRange demoRnd"
    unfolding demoRnd_def by (rule inRange_rndOf) (simp add: BOARD_SIZE_def)
  from randomFoodPosition_returns_iff [of demoRnd INITIAL_SNAKE 0 "\<lparr>cx = 3, cy = 3\<rparr>" 2] a
  have c: "\<lparr>cx = 3, cy = 3\<rparr> \<notin> set INITIAL_SNAKE" by blast
  from randomFoodPosition_returns_iff [of demoRnd allCells 0] b
  have d: "randomFoodPosition demoRnd allCells 0 = None" by blast
  from a a' b c d e show ?thesis by simp
qed

section \<open>Speed\<close>

lemma play_reachable:
  "reachable rnd s \<Longrightarrow> play rnd es s = Inr s' \<Longrightarrow> reachable rnd s'"
proof (induction es arbitrary: s)
  case Nil
  then show ?case by simp
next
  case (Cons e es)
  show ?case
  proof (cases "canFire e s")
    case True
    with Cons.prems(2) obtain s1 where s1: "step rnd e s = Inr s1" and p: "play rnd es s1 = Inr s'"
      by (cases "step rnd e s") auto
    from Cons.IH [OF reachable.stepped [OF Cons.prems(1) True s1] p] show ?thesis .
  next
    case False
    with Cons.prems(2) have "play rnd es s = Inr s'" by simp
    from Cons.IH [OF Cons.prems(1) this] show ?thesis .
  qed
qed

lemma feast_mount: "mount feastRnd None = Inr demoMounted"
  by (simp add: mount_def randomFoodPosition_unfold drawn_def feastRnd_def rndOf_def
      INITIAL_SNAKE_def updateHighScore_def demoMounted_def)

lemma feast_level:
  "case play feastRnd feast demoMounted of Inl f \<Rightarrow> False | Inr s \<Rightarrow> speedLevel s = 12"
  by (simp add: feast_def step_def togglePause_def resetGame_def demoMounted_def
      intervalCallback_unfold collides_def BOARD_SIZE_def handleKeyDown_def keyMap_def
      isOppositeDirection_def Let_def
      randomFoodPosition_unfold drawn_def feastRnd_def rndOf_def INITIAL_SNAKE_def updateHighScore_def
      runEffects_def startLoop_def stopLoop_def tickRate_def TICK_BASE_def SPEED_STEP_def)

lemma feast_reachable: "\<exists>s. reachable feastRnd s \<and> speedLevel s = 12"
proof -
  from feast_level obtain s where p: "play feastRnd feast demoMounted = Inr s"
    and l: "speedLevel s = 12"
    by (cases "play feastRnd feast demoMounted") auto
  from play_reachable [OF reachable.mounted [OF feast_mount] p] l show ?thesis by blast
qed

lemma tickRate_unfold: "tickRate level = max 60 (160 - level * 6)"
  by (simp add: tickRate_def TICK_BASE_def SPEED_STEP_def)

text \<open>
  Claim C9. The tick interval at speed level \<open>level\<close> is \<open>max 60 (160 - level * 6)\<close>;
  it is at least 60 for every level and at least 88 up to level 12; in every reachable
  state the level is at most 12, so the interval is at least 88, and the interval that is
  running fires at the tick rate of the current level; and a game reaches level 12, where
  the interval is 88.
\<close>

theorem tick_interval_bounds:
  "tickRate level = max 60 (160 - level * 6) \<and> 60 \<le> tickRate level \<and>
   (level \<le> 12 \<longrightarrow> 88 \<le> tickRate level) \<and> tickRate 12 = 88 \<and>
   (reachable rnd s \<longrightarrow> speedLevel s \<le> 12 \<and> 88 \<le> tickRate (speedLevel s)) \<and>
   (reachable rnd s \<and> loopRef s = Some t \<longrightarrow> delay t = tickRate (speedLevel s)) \<and>
   (\<exists>rnd' s'. reachable rnd' s' \<and> speedLevel s' = 12 \<and> tickRate (speedLevel s') = 88)"
proof (intro conjI impI)
  show "delay t = tickRate (speedLevel s)" if "reachable rnd s \<and> loopRef s = Some t"
    using reachable_wellFormed [of rnd s] that by (simp add: wellFormed_def)
  show "tickRate level = max 60 (160 - level * 6)" by (rule tickRate_unfold)
  show "60 \<le> tickRate level" by (simp add: tickRate_unfold)
  show "88 \<le> tickRate level" if "level \<le> 12" using that by (simp add: tickRate_unfold)
  show "tickRate 12 = 88" by (simp add: tickRate_unfold)
  show "speedLevel s \<le> 12" if "reachable rnd s"
    using reachable_wellFormed [OF that] by (simp add: wellFormed_def)
  then show "88 \<le> tickRate (speedLevel s)" if "reachable rnd s"
    using that by (simp add: tickRate_unfold)
  from feast_reachable obtain s' where "reachable feastRnd s'" "speedLevel s' = 12" by blast
  moreover from this have "tickRate (speedLevel s') = 88" by (simp add: tickRate_unfold)
  ultimately show "\<exists>rnd' s'. reachable rnd' s' \<and> speedLevel s' = 12 \<and> tickRate (speedLevel s') = 88"
    by blast
qed

theorem tick_interval_bounds_witness:
  "(1 :: int) \<le> 12 \<and> reachable demoRnd demoAte \<and> speedLevel demoAte = 1 \<and>
   loopRef demoAte = Some \<lparr>closureFood = \<lparr>cx = 0, cy = 0\<rparr>, delay = 154\<rparr> \<and>
   tickRate (speedLevel demoAte) = 154 \<and> 88 \<le> tickRate (speedLevel demoAte)"
proof -
  have a: "speedLevel demoAte = 1"
    and b: "loopRef demoAte = Some \<lparr>closureFood = \<lparr>cx = 0, cy = 0\<rparr>, delay = 154\<rparr>"
    by (simp_all add: demoAte_def)
  from tick_interval_bounds
    [of 1 demoRnd demoAte "\<lparr>closureFood = \<lparr>cx = 0, cy = 0\<rparr>, delay = 154\<rparr>"] demo_reachable(3) a b
  show ?thesis by simp
qed

end
